theory Spec2Isabelle
  imports Main "HOL-Library.Word" "HOL-Library.AList" "HOL-Library.Sublist"
begin

section \<open>Data model\<close>

text \<open>
  The merger works on the document object model of \<^verbatim>\<open>github.com/go-openapi/spec\<close>.
  Only the fields that \<^verbatim>\<open>mixer.go\<close> reads or writes are modelled.

  \<^item> A Go map is an association list with pairwise distinct keys, in the order in which
    one particular \<^verbatim>\<open>range\<close> statement visits it, wrapped in \<open>option\<close>: \<open>None\<close> is the
    \<^verbatim>\<open>nil\<close> map. Reading and ranging over a \<^verbatim>\<open>nil\<close> map behave as on the empty
    map; writing to it panics.
  \<^item> \<^verbatim>\<open>*spec.Operation\<close> values are shared between a mixin and the primary once a path
    item has been carried over, so operations live in a store, addressed by natural
    numbers; a pointer is an \<open>option\<close> of an address, \<open>None\<close> being \<^verbatim>\<open>nil\<close>.
  \<^item> The pointers \<^verbatim>\<open>*spec.Paths\<close>, \<^verbatim>\<open>*spec.Responses\<close> and \<^verbatim>\<open>*spec.Response\<close> are
    modelled as owned values (\<open>option\<close> for \<^verbatim>\<open>nil\<close>), as the loader builds them:
    one owner each.
  \<^item> Documents are values: the \<^verbatim>\<open>*spec.Swagger\<close> arguments are not \<^verbatim>\<open>nil\<close>, and the
    maps of different documents are different objects.
  \<^item> A run-time panic is a value of type \<open>fault\<close>; a function that can panic returns
    \<open>fault + 'a\<close>.
  \<^item> The \<^verbatim>\<open>log.Printf\<close> diagnostics are not modelled.
\<close>

datatype fault = NilDereference | NilMapWrite

type_synonym ('k, 'v) gomap = "('k \<times> 'v) list option"

definition entries :: "('k, 'v) gomap \<Rightarrow> ('k \<times> 'v) list" where
  "entries m = (case m of None \<Rightarrow> [] | Some xs \<Rightarrow> xs)"

definition keys :: "('k, 'v) gomap \<Rightarrow> 'k list" where
  "keys m = map fst (entries m)"

text \<open>The comma-ok read \<^verbatim>\<open>_, exists := m[k]\<close>.\<close>

definition has_key :: "('k, 'v) gomap \<Rightarrow> 'k \<Rightarrow> bool" where
  "has_key m k = (k \<in> set (keys m))"

text \<open>The assignment \<^verbatim>\<open>m[k] = v\<close>.\<close>

definition assign :: "('k, 'v) gomap \<Rightarrow> 'k \<Rightarrow> 'v \<Rightarrow> fault + ('k, 'v) gomap" where
  "assign m k v = (case m of None \<Rightarrow> Inl NilMapWrite | Some xs \<Rightarrow> Inr (Some (AList.update k v xs)))"

record Response =
  Description :: string
  Ref :: "string option"

record Responses =
  Default :: "Response option"
  StatusCodeResponses :: "(int, Response) gomap"

record Operation =
  ID :: string
  Responses :: "Responses option"

record PathItem =
  Get :: "nat option"
  Put :: "nat option"
  Post :: "nat option"
  Delete :: "nat option"
  Options :: "nat option"
  Head :: "nat option"
  Patch :: "nat option"

record Paths =
  Paths :: "(string, PathItem) gomap"

record ('d, 'p) Swagger =
  Paths :: "Paths option"
  Definitions :: "(string, 'd) gomap"
  Parameters :: "(string, 'p) gomap"
  Responses :: "(string, Response) gomap"

type_synonym store = "nat \<Rightarrow> Operation"

section \<open>Description repair\<close>

text \<open>
  \<^verbatim>\<open>FixEmptyDesc(rs *spec.Response)\<close>: no-op on \<^verbatim>\<open>nil\<close>, on a non-empty description
  and on a reference (\<^verbatim>\<open>rs.Ref.Ref.GetURL() != nil\<close>, here \<open>Ref rs \<noteq> None\<close>); the
  result is the value the pointer refers to afterwards.
\<close>

definition FixEmptyDesc :: "Response option \<Rightarrow> Response option" where
  "FixEmptyDesc rs =
     (case rs of
        None \<Rightarrow> None
      | Some r \<Rightarrow>
          if Description r \<noteq> [] \<or> Ref r \<noteq> None then Some r
          else Some (r\<lparr>Description := ''(empty)''\<rparr>))"

text \<open>
  The loop \<^verbatim>\<open>for k, v := range m { FixEmptyDesc(&v); m[k] = v }\<close>, which occurs in
  \<^verbatim>\<open>FixEmptyDescs\<close> over the status codes and in \<^verbatim>\<open>FixEmptyResponseDescriptions\<close>
  over the top-level responses. The first argument is the sequence of entries that the
  \<^verbatim>\<open>range\<close> visits, the second the map as it is being updated.
\<close>

fun fixEntries :: "('k \<times> Response) list \<Rightarrow> ('k, Response) gomap \<Rightarrow> fault + ('k, Response) gomap" where
  "fixEntries [] m = Inr m"
| "fixEntries ((k, v) # rest) m =
     (case assign m k (case FixEmptyDesc (Some v) of None \<Rightarrow> v | Some v' \<Rightarrow> v') of
        Inl e \<Rightarrow> Inl e
      | Inr m' \<Rightarrow> fixEntries rest m')"

text \<open>
  \<^verbatim>\<open>FixEmptyDescs(rs *spec.Responses)\<close>: \<^verbatim>\<open>rs.Default\<close> dereferences \<open>rs\<close>, which
  panics on \<^verbatim>\<open>nil\<close>. The result is the repaired \<^verbatim>\<open>Responses\<close> object.
\<close>

definition FixEmptyDescs :: "Responses option \<Rightarrow> fault + Responses" where
  "FixEmptyDescs rs =
     (case rs of
        None \<Rightarrow> Inl NilDereference
      | Some r \<Rightarrow>
          (case fixEntries (entries (StatusCodeResponses r)) (StatusCodeResponses r) of
             Inl e \<Rightarrow> Inl e
           | Inr m \<Rightarrow> Inr (r\<lparr>Default := FixEmptyDesc (Default r), StatusCodeResponses := m\<rparr>)))"

text \<open>One statement \<^verbatim>\<open>if v.Get != nil { FixEmptyDescs(v.Get.Responses) }\<close>.\<close>

definition fixMethod :: "nat option \<Rightarrow> store \<Rightarrow> fault + store" where
  "fixMethod p \<sigma> =
     (case p of
        None \<Rightarrow> Inr \<sigma>
      | Some a \<Rightarrow>
          (case FixEmptyDescs (Operation.Responses (\<sigma> a)) of
             Inl e \<Rightarrow> Inl e
           | Inr rs \<Rightarrow> Inr (\<sigma>(a := (\<sigma> a)\<lparr>Operation.Responses := Some rs\<rparr>))))"

fun fixMethods :: "nat option list \<Rightarrow> store \<Rightarrow> fault + store" where
  "fixMethods [] \<sigma> = Inr \<sigma>"
| "fixMethods (p # ps) \<sigma> =
     (case fixMethod p \<sigma> of Inl e \<Rightarrow> Inl e | Inr \<sigma>' \<Rightarrow> fixMethods ps \<sigma>')"

text \<open>The seven methods in the order in which \<^verbatim>\<open>FixEmptyResponseDescriptions\<close> tests them.\<close>

definition repairedMethods :: "PathItem \<Rightarrow> nat option list" where
  "repairedMethods v = [Get v, Put v, Post v, Delete v, Options v, Head v, Patch v]"

fun fixPaths :: "(string \<times> PathItem) list \<Rightarrow> store \<Rightarrow> fault + store" where
  "fixPaths [] \<sigma> = Inr \<sigma>"
| "fixPaths ((k, v) # rest) \<sigma> =
     (case fixMethods (repairedMethods v) \<sigma> of Inl e \<Rightarrow> Inl e | Inr \<sigma>' \<Rightarrow> fixPaths rest \<sigma>')"

definition FixEmptyResponseDescriptions ::
  "store \<Rightarrow> ('d, 'p) Swagger \<Rightarrow> fault + (store \<times> ('d, 'p) Swagger)" where
  "FixEmptyResponseDescriptions \<sigma> s =
     (case Swagger.Paths s of
        None \<Rightarrow> Inl NilDereference
      | Some ps \<Rightarrow>
          (case fixPaths (entries (Paths.Paths ps)) \<sigma> of
             Inl e \<Rightarrow> Inl e
           | Inr \<sigma>' \<Rightarrow>
               (case fixEntries (entries (Swagger.Responses s)) (Swagger.Responses s) of
                  Inl e \<Rightarrow> Inl e
                | Inr rs \<Rightarrow> Inr (\<sigma>', s\<lparr>Swagger.Responses := rs\<rparr>))))"

section \<open>Operation identifiers\<close>

definition appendOp :: "nat list \<Rightarrow> nat option \<Rightarrow> nat list" where
  "appendOp ops op = (case op of None \<Rightarrow> ops | Some a \<Rightarrow> ops @ [a])"

definition pathItemOps :: "PathItem \<Rightarrow> nat list" where
  "pathItemOps p =
     (let rv = [];
          rv = appendOp rv (Get p);
          rv = appendOp rv (Put p);
          rv = appendOp rv (Post p);
          rv = appendOp rv (Delete p);
          rv = appendOp rv (Head p);
          rv = appendOp rv (Patch p)
      in rv)"

text \<open>
  \<^verbatim>\<open>getOpIds\<close> returns a \<^verbatim>\<open>map[string]bool\<close> in which every stored value is
  \<^verbatim>\<open>true\<close>; a read of a missing key yields \<^verbatim>\<open>false\<close>. It is modelled as the set of
  its keys.
\<close>

fun getOpIdsLoop :: "store \<Rightarrow> (string \<times> PathItem) list \<Rightarrow> string set \<Rightarrow> string set" where
  "getOpIdsLoop \<sigma> [] rv = rv"
| "getOpIdsLoop \<sigma> ((k, v) # rest) rv =
     getOpIdsLoop \<sigma> rest (fold (\<lambda>op rv. insert (ID (\<sigma> op)) rv) (pathItemOps v) rv)"

definition getOpIds :: "store \<Rightarrow> ('d, 'p) Swagger \<Rightarrow> fault + string set" where
  "getOpIds \<sigma> s =
     (case Swagger.Paths s of
        None \<Rightarrow> Inl NilDereference
      | Some ps \<Rightarrow> Inr (getOpIdsLoop \<sigma> (entries (Paths.Paths ps)) {}))"

text \<open>The decimal rendering of a non-negative \<^verbatim>\<open>int\<close> by the verb \<^verbatim>\<open>%v\<close>.\<close>

definition digit :: "nat \<Rightarrow> char" where
  "digit n = ''0123456789'' ! n"

fun dec :: "nat \<Rightarrow> string" where
  "dec n = (if n < 10 then [digit n] else dec (n div 10) @ [digit (n mod 10)])"

declare dec.simps [simp del]

text \<open>
  The loop over \<^verbatim>\<open>piops\<close> in \<^verbatim>\<open>Mixin\<close>: a seen identifier is rewritten in place,
  through the pointer, to \<^verbatim>\<open>fmt.Sprintf("%v%v%v", piop.ID, "Mixin", i)\<close>; the
  identifier the operation has afterwards is entered into the registry.
\<close>

fun renameOps :: "nat \<Rightarrow> nat list \<Rightarrow> store \<times> string set \<Rightarrow> store \<times> string set" where
  "renameOps i [] st = st"
| "renameOps i (piop # rest) (\<sigma>, opIds) =
     (let \<sigma>1 = (if ID (\<sigma> piop) \<in> opIds
                 then \<sigma>(piop := (\<sigma> piop)\<lparr>ID := ID (\<sigma> piop) @ ''Mixin'' @ dec i\<rparr>)
                 else \<sigma>)
      in renameOps i rest (\<sigma>1, insert (ID (\<sigma>1 piop)) opIds))"

section \<open>Mixin\<close>

text \<open>
  The loops over \<^verbatim>\<open>m.Definitions\<close>, \<^verbatim>\<open>m.Parameters\<close> and \<^verbatim>\<open>m.Responses\<close> have the
  same body up to the field; \<open>mergeEntries\<close> is that loop. The counter \<^verbatim>\<open>skipped\<close>
  is a \<^verbatim>\<open>uint\<close>, 64 bits wide on the usual targets.
\<close>

fun mergeEntries ::
  "('k \<times> 'v) list \<Rightarrow> ('k, 'v) gomap \<times> 64 word \<Rightarrow> fault + (('k, 'v) gomap \<times> 64 word)" where
  "mergeEntries [] st = Inr st"
| "mergeEntries ((k, v) # rest) (pm, skipped) =
     (if has_key pm k then mergeEntries rest (pm, skipped + 1)
      else (case assign pm k v of
              Inl e \<Rightarrow> Inl e
            | Inr pm' \<Rightarrow> mergeEntries rest (pm', skipped)))"

text \<open>
  The loop over \<^verbatim>\<open>m.Paths.Paths\<close>. Every iteration dereferences \<^verbatim>\<open>primary.Paths\<close>.
\<close>

fun mergePaths ::
  "nat \<Rightarrow> (string \<times> PathItem) list \<Rightarrow> store \<times> string set \<times> Paths option \<times> 64 word \<Rightarrow>
   fault + (store \<times> string set \<times> Paths option \<times> 64 word)" where
  "mergePaths i [] st = Inr st"
| "mergePaths i ((k, v) # rest) (\<sigma>, opIds, pp, skipped) =
     (case pp of
        None \<Rightarrow> Inl NilDereference
      | Some ps \<Rightarrow>
          if has_key (Paths.Paths ps) k then mergePaths i rest (\<sigma>, opIds, pp, skipped + 1)
          else (case renameOps i (pathItemOps v) (\<sigma>, opIds) of
                  (\<sigma>1, opIds1) \<Rightarrow>
                    (case assign (Paths.Paths ps) k v of
                       Inl e \<Rightarrow> Inl e
                     | Inr pm \<Rightarrow>
                         mergePaths i rest (\<sigma>1, opIds1, Some (ps\<lparr>Paths.Paths := pm\<rparr>), skipped))))"

text \<open>The body of the loop over the mixins, for the mixin \<open>m\<close> at index \<open>i\<close>.\<close>

definition mixinStep ::
  "nat \<Rightarrow> ('d, 'p) Swagger \<Rightarrow> store \<times> string set \<times> ('d, 'p) Swagger \<times> 64 word \<Rightarrow>
   fault + (store \<times> string set \<times> ('d, 'p) Swagger \<times> 64 word)" where
  "mixinStep i m st =
     (case st of (\<sigma>, opIds, primary, skipped) \<Rightarrow>
     (case mergeEntries (entries (Definitions m)) (Definitions primary, skipped) of
        Inl e \<Rightarrow> Inl e
      | Inr (defs, skipped) \<Rightarrow>
     (case Swagger.Paths m of
        None \<Rightarrow> Inl NilDereference
      | Some mp \<Rightarrow>
     (case mergePaths i (entries (Paths.Paths mp)) (\<sigma>, opIds, Swagger.Paths primary, skipped) of
        Inl e \<Rightarrow> Inl e
      | Inr (\<sigma>, opIds, pp, skipped) \<Rightarrow>
     (case mergeEntries (entries (Parameters m)) (Parameters primary, skipped) of
        Inl e \<Rightarrow> Inl e
      | Inr (params, skipped) \<Rightarrow>
     (case mergeEntries (entries (Swagger.Responses m)) (Swagger.Responses primary, skipped) of
        Inl e \<Rightarrow> Inl e
      | Inr (resps, skipped) \<Rightarrow>
          Inr (\<sigma>, opIds,
               primary\<lparr>Swagger.Paths := pp, Definitions := defs, Parameters := params,
                        Swagger.Responses := resps\<rparr>,
               skipped)))))))"

fun mixinLoop ::
  "nat \<Rightarrow> ('d, 'p) Swagger list \<Rightarrow> store \<times> string set \<times> ('d, 'p) Swagger \<times> 64 word \<Rightarrow>
   fault + (store \<times> string set \<times> ('d, 'p) Swagger \<times> 64 word)" where
  "mixinLoop i [] st = Inr st"
| "mixinLoop i (m # ms) st =
     (case mixinStep i m st of Inl e \<Rightarrow> Inl e | Inr st' \<Rightarrow> mixinLoop (Suc i) ms st')"

definition Mixin ::
  "store \<Rightarrow> ('d, 'p) Swagger \<Rightarrow> ('d, 'p) Swagger list \<Rightarrow>
   fault + (store \<times> ('d, 'p) Swagger \<times> 64 word)" where
  "Mixin \<sigma> primary mixins =
     (case getOpIds \<sigma> primary of
        Inl e \<Rightarrow> Inl e
      | Inr opIds \<Rightarrow>
          (case mixinLoop 0 mixins (\<sigma>, opIds, primary, 0) of
             Inl e \<Rightarrow> Inl e
           | Inr (\<sigma>', opIds', primary', skipped) \<Rightarrow> Inr (\<sigma>', primary', skipped)))"

section \<open>MixinFiles\<close>

text \<open>
  \<^verbatim>\<open>loads.Spec\<close>, \<^verbatim>\<open>json.MarshalIndent\<close> and the \<^verbatim>\<open>io.Writer\<close> are not code of this
  repository; they are parameters of the model. \<open>loadsSpec\<close> maps a file name to an error
  or to the document \<^verbatim>\<open>loads.Spec(file)\<close> followed by \<^verbatim>\<open>.Spec()\<close> yields, the store
  being the heap that holds the operations of the loaded documents; \<open>marshalIndent\<close>
  yields an error or the bytes; \<open>write\<close> maps the state of the sink and the bytes to the
  new state of the sink and the error of \<^verbatim>\<open>w.Write\<close>, if any. The result is the state of
  the sink with the two values that \<^verbatim>\<open>MixinFiles\<close> returns, or a panic.
\<close>

fun loadMixins :: "(string \<Rightarrow> 'e + 'doc) \<Rightarrow> string list \<Rightarrow> 'doc list \<Rightarrow> 'e + 'doc list" where
  "loadMixins loadsSpec [] mixins = Inr mixins"
| "loadMixins loadsSpec (mixinFile # rest) mixins =
     (case loadsSpec mixinFile of
        Inl err \<Rightarrow> Inl err
      | Inr mixin \<Rightarrow> loadMixins loadsSpec rest (mixins @ [mixin]))"

definition MixinFiles ::
  "(string \<Rightarrow> 'e + ('d, 'p) Swagger) \<Rightarrow> (store \<Rightarrow> ('d, 'p) Swagger \<Rightarrow> 'e + string) \<Rightarrow>
   ('w \<Rightarrow> string \<Rightarrow> 'w \<times> 'e option) \<Rightarrow> store \<Rightarrow> string \<Rightarrow> string list \<Rightarrow> 'w \<Rightarrow>
   fault + ('w \<times> 64 word \<times> 'e option)" where
  "MixinFiles loadsSpec marshalIndent write \<sigma> primaryFile mixinFiles w =
     (case loadsSpec primaryFile of
        Inl err \<Rightarrow> Inr (w, 0, Some err)
      | Inr primary \<Rightarrow>
     (case loadMixins loadsSpec mixinFiles [] of
        Inl err \<Rightarrow> Inr (w, 0, Some err)
      | Inr mixins \<Rightarrow>
     (case Mixin \<sigma> primary mixins of
        Inl f \<Rightarrow> Inl f
      | Inr (\<sigma>1, primary1, collisions) \<Rightarrow>
     (case FixEmptyResponseDescriptions \<sigma>1 primary1 of
        Inl f \<Rightarrow> Inl f
      | Inr (\<sigma>2, primary2) \<Rightarrow>
     (case marshalIndent \<sigma>2 primary2 of
        Inl err \<Rightarrow> Inr (w, 0, Some err)
      | Inr bs \<Rightarrow> Inr (fst (write w bs), collisions, None))))))"

section \<open>Auxiliary notions used in the statements\<close>

text \<open>The path entries of a document, as \<^verbatim>\<open>range s.Paths.Paths\<close> visits them.\<close>

definition pathEntries :: "Paths option \<Rightarrow> (string \<times> PathItem) list" where
  "pathEntries pp = (case pp of None \<Rightarrow> [] | Some ps \<Rightarrow> entries (Paths.Paths ps))"

definition pathsOf :: "('d, 'p) Swagger \<Rightarrow> (string \<times> PathItem) list" where
  "pathsOf s = pathEntries (Swagger.Paths s)"

text \<open>The \<^verbatim>\<open>Paths.Paths\<close> map of a document; \<open>None\<close> if the pointer or the map is \<^verbatim>\<open>nil\<close>.\<close>

definition pathsMap :: "('d, 'p) Swagger \<Rightarrow> (string, PathItem) gomap" where
  "pathsMap s = (case Swagger.Paths s of None \<Rightarrow> None | Some ps \<Rightarrow> Paths.Paths ps)"

fun ptrs :: "nat option list \<Rightarrow> nat list" where
  "ptrs [] = []"
| "ptrs (None # ps) = ptrs ps"
| "ptrs (Some a # ps) = a # ptrs ps"

text \<open>The operations that the identifier scan reaches, and those that the repair reaches.\<close>

definition scannedOps :: "('d, 'p) Swagger \<Rightarrow> nat list" where
  "scannedOps s = concat (map (\<lambda>e. pathItemOps (snd e)) (pathsOf s))"

definition repairedOps :: "('d, 'p) Swagger \<Rightarrow> nat list" where
  "repairedOps s = concat (map (\<lambda>e. ptrs (repairedMethods (snd e))) (pathsOf s))"

text \<open>
  The repair as the specification words it: a reference is never touched; otherwise an
  empty description becomes the placeholder and a non-empty one stays.
\<close>

definition repaired :: "Response \<Rightarrow> Response" where
  "repaired r =
     (if Ref r \<noteq> None then r
      else if Description r = [] then r\<lparr>Description := ''(empty)''\<rparr>
      else r)"

definition repairedMap :: "('k, Response) gomap \<Rightarrow> ('k, Response) gomap" where
  "repairedMap m = map_option (map (\<lambda>e. (fst e, repaired (snd e)))) m"

definition repairedResponses :: "Responses \<Rightarrow> Responses" where
  "repairedResponses rs =
     rs\<lparr>Default := map_option repaired (Default rs),
        StatusCodeResponses := repairedMap (StatusCodeResponses rs)\<rparr>"

definition repairedOp :: "Operation \<Rightarrow> Operation" where
  "repairedOp op = op\<lparr>Operation.Responses := map_option repairedResponses (Operation.Responses op)\<rparr>"

text \<open>Well-formedness of the representation: a Go map holds every key once.\<close>

definition wfOp :: "Operation \<Rightarrow> bool" where
  "wfOp op =
     (case Operation.Responses op of
        None \<Rightarrow> True
      | Some rs \<Rightarrow> distinct (keys (StatusCodeResponses rs)))"

definition wfRepair :: "store \<Rightarrow> ('d, 'p) Swagger \<Rightarrow> bool" where
  "wfRepair \<sigma> s =
     (distinct (keys (Swagger.Responses s)) \<and> list_all (\<lambda>a. wfOp (\<sigma> a)) (repairedOps s))"

text \<open>The sequence of \<^verbatim>\<open>FixEmptyDescs\<close> calls on the operations at the given addresses.\<close>

fun fixAll :: "nat list \<Rightarrow> store \<Rightarrow> fault + store" where
  "fixAll [] \<sigma> = Inr \<sigma>"
| "fixAll (a # as) \<sigma> =
     (case fixMethod (Some a) \<sigma> of Inl e \<Rightarrow> Inl e | Inr \<sigma>' \<Rightarrow> fixAll as \<sigma>')"

text \<open>
  The entries of a collection of the primary after the same collections of the mixins
  have been merged into it in order: an entry whose key is present is left out.
\<close>

fun mergedEntries :: "('k \<times> 'v) list \<Rightarrow> ('k \<times> 'v) list list \<Rightarrow> ('k \<times> 'v) list" where
  "mergedEntries xs [] = xs"
| "mergedEntries xs (es # ess) = mergedEntries (xs @ filter (\<lambda>e. fst e \<notin> fst ` set xs) es) ess"

text \<open>
  The number of collisions of one collection, as the specification counts them: for
  each mixin in order, the number of its keys that are keys of the primary or of an
  earlier mixin.
\<close>

fun collisions :: "'k set \<Rightarrow> 'k list list \<Rightarrow> nat" where
  "collisions S [] = 0"
| "collisions S (ks # kss) = length (filter (\<lambda>k. k \<in> S) ks) + collisions (S \<union> set ks) kss"

definition totalCollisions :: "('d, 'p) Swagger \<Rightarrow> ('d, 'p) Swagger list \<Rightarrow> nat" where
  "totalCollisions P Ms =
     collisions (set (keys (Definitions P))) (map (\<lambda>m. keys (Definitions m)) Ms) +
     collisions (set (map fst (pathsOf P))) (map (\<lambda>m. map fst (pathsOf m)) Ms) +
     collisions (set (keys (Parameters P))) (map (\<lambda>m. keys (Parameters m)) Ms) +
     collisions (set (keys (Swagger.Responses P))) (map (\<lambda>m. keys (Swagger.Responses m)) Ms)"

definition wfKeys :: "('d, 'p) Swagger \<Rightarrow> bool" where
  "wfKeys s =
     (distinct (keys (Definitions s)) \<and> distinct (map fst (pathsOf s)) \<and>
      distinct (keys (Parameters s)) \<and> distinct (keys (Swagger.Responses s)))"

text \<open>
  The renaming loop over operations that come from several mixins: each address is
  paired with the index of its mixin. \<open>taggedOps i xs ess\<close> lists, in the order of the
  run, the operations of the path entries that are carried over from the mixins with
  path entries \<open>ess\<close>, the first of which has the index \<open>i\<close>, into a primary with the
  path entries \<open>xs\<close>.
\<close>

fun renameTagged :: "(nat \<times> nat) list \<Rightarrow> store \<times> string set \<Rightarrow> store \<times> string set" where
  "renameTagged [] st = st"
| "renameTagged ((i, a) # rest) st = renameTagged rest (renameOps i [a] st)"

fun taggedOps ::
  "nat \<Rightarrow> (string \<times> PathItem) list \<Rightarrow> (string \<times> PathItem) list list \<Rightarrow> (nat \<times> nat) list" where
  "taggedOps i xs [] = []"
| "taggedOps i xs (es # ess) =
     map (Pair i) (concat (map (\<lambda>e. pathItemOps (snd e)) (filter (\<lambda>e. fst e \<notin> fst ` set xs) es))) @
     taggedOps (Suc i) (xs @ filter (\<lambda>e. fst e \<notin> fst ` set xs) es) ess"

text \<open>
  The keys of a collection are pairwise disjoint across the primary and the mixins (and
  each map holds every key once).
\<close>

definition disjointKeys :: "('k \<times> 'v) list \<Rightarrow> ('k \<times> 'v) list list \<Rightarrow> bool" where
  "disjointKeys xs ess = distinct (map fst (xs @ concat ess))"

definition disjointDocs :: "('d, 'p) Swagger \<Rightarrow> ('d, 'p) Swagger list \<Rightarrow> bool" where
  "disjointDocs P Ms =
     (disjointKeys (entries (Definitions P)) (map (\<lambda>m. entries (Definitions m)) Ms) \<and>
      disjointKeys (pathsOf P) (map pathsOf Ms) \<and>
      disjointKeys (entries (Parameters P)) (map (\<lambda>m. entries (Parameters m)) Ms) \<and>
      disjointKeys (entries (Swagger.Responses P)) (map (\<lambda>m. entries (Swagger.Responses m)) Ms))"

text \<open>The operations of the path items that are carried over into the primary.\<close>

definition carriedOps :: "('d, 'p) Swagger \<Rightarrow> ('d, 'p) Swagger list \<Rightarrow> nat list" where
  "carriedOps P Ms = map snd (taggedOps 0 (pathsOf P) (map pathsOf Ms))"

text \<open>
  The conditions under which merging the mixin \<open>m\<close> into the primary \<open>P\<close> panics: the
  \<^verbatim>\<open>Paths\<close> pointer of the mixin is \<^verbatim>\<open>nil\<close>, or a collection of the mixin is not empty
  while the map of the primary that would receive it is \<^verbatim>\<open>nil\<close>.
\<close>

definition nilFault :: "('d, 'p) Swagger \<Rightarrow> ('d, 'p) Swagger \<Rightarrow> bool" where
  "nilFault P m =
     ((Definitions P = None \<and> entries (Definitions m) \<noteq> []) \<or>
      Swagger.Paths m = None \<or>
      (pathsMap P = None \<and> pathsOf m \<noteq> []) \<or>
      (Parameters P = None \<and> entries (Parameters m) \<noteq> []) \<or>
      (Swagger.Responses P = None \<and> entries (Swagger.Responses m) \<noteq> []))"

text \<open>
  The assumptions under which the identifiers are unique after the merge. The
  operations under the six scanned methods are not shared between path items, each of
  them has an identifier (none is empty), and these identifiers are unique within the
  primary and within each mixin (the assumption that the comment in \<^verbatim>\<open>Mixin\<close>
  states); and no identifier that a renaming of an operation of the mixin at index \<open>i\<close>
  would produce is the identifier of a scanned operation.
\<close>

definition allScannedOps :: "('d, 'p) Swagger \<Rightarrow> ('d, 'p) Swagger list \<Rightarrow> nat list" where
  "allScannedOps P Ms = scannedOps P @ concat (map scannedOps Ms)"

definition uniqueIds :: "store \<Rightarrow> ('d, 'p) Swagger \<Rightarrow> ('d, 'p) Swagger list \<Rightarrow> bool" where
  "uniqueIds \<sigma> P Ms =
     (distinct (allScannedOps P Ms) \<and>
      [] \<notin> set (map (\<lambda>a. ID (\<sigma> a)) (allScannedOps P Ms)) \<and>
      distinct (map (\<lambda>a. ID (\<sigma> a)) (scannedOps P)) \<and>
      list_all (\<lambda>m. distinct (map (\<lambda>a. ID (\<sigma> a)) (scannedOps m))) Ms)"

definition noRenameClash :: "store \<Rightarrow> ('d, 'p) Swagger \<Rightarrow> ('d, 'p) Swagger list \<Rightarrow> bool" where
  "noRenameClash \<sigma> P Ms =
     list_all
       (\<lambda>im. list_all
          (\<lambda>a. list_all (\<lambda>b. ID (\<sigma> b) \<noteq> ID (\<sigma> a) @ ''Mixin'' @ dec (fst im))
                  (allScannedOps P Ms))
          (scannedOps (snd im)))
       (enumerate 0 Ms)"

section \<open>Example documents\<close>

definition emptyItem :: PathItem where
  "emptyItem = \<lparr>Get = None, Put = None, Post = None, Delete = None, Options = None,
                 Head = None, Patch = None\<rparr>"

definition noResponses :: Responses where
  "noResponses = \<lparr>Default = None, StatusCodeResponses = None\<rparr>"

definition opNamed :: "string \<Rightarrow> Operation" where
  "opNamed x = \<lparr>ID = x, Operation.Responses = Some noResponses\<rparr>"

definition docOfPaths :: "(string \<times> PathItem) list \<Rightarrow> (string, string) Swagger" where
  "docOfPaths ps =
     \<lparr>Swagger.Paths = Some \<lparr>Paths.Paths = Some ps\<rparr>, Definitions = Some [],
      Parameters = Some [], Swagger.Responses = Some []\<rparr>"

text \<open>
  A document with a GET operation and an OPTIONS operation on one path: an empty default
  description, a filled one, an empty one on a reference, and an empty top-level one.
\<close>

definition repair_store :: store where
  "repair_store =
     (\<lambda>_. opNamed [])
     (0 := \<lparr>ID = ''getA'',
            Operation.Responses = Some
              \<lparr>Default = Some \<lparr>Description = [], Ref = None\<rparr>,
               StatusCodeResponses = Some
                 [(200, \<lparr>Description = ''ok'', Ref = None\<rparr>),
                  (404, \<lparr>Description = [], Ref = Some ''#/responses/NotFound''\<rparr>)]\<rparr>\<rparr>,
      1 := \<lparr>ID = ''optA'',
            Operation.Responses = Some
              \<lparr>Default = None,
               StatusCodeResponses = Some [(204, \<lparr>Description = [], Ref = None\<rparr>)]\<rparr>\<rparr>)"

definition repair_doc :: "(string, string) Swagger" where
  "repair_doc =
     (docOfPaths [(''/a'', emptyItem\<lparr>Get := Some 0, Options := Some 1\<rparr>)])
     \<lparr>Swagger.Responses := Some [(''NotFound'', \<lparr>Description = [], Ref = None\<rparr>)]\<rparr>"

text \<open>
  The scenario of the specification: the primary has \<^verbatim>\<open>/a\<close>, the mixin has \<^verbatim>\<open>/a\<close> and
  \<^verbatim>\<open>/b\<close>, every operation is a GET with the identifier \<^verbatim>\<open>getA\<close>. The operation of
  the primary is at address 0, those of the mixin at 1 (\<^verbatim>\<open>/a\<close>) and 2 (\<^verbatim>\<open>/b\<close>).
  The second mixin value is the same map visited in the other order. In the second
  store the operation of the mixin's \<^verbatim>\<open>/b\<close> has the identifier \<^verbatim>\<open>getB\<close> instead.
\<close>

definition scenario_store :: store where
  "scenario_store =
     (\<lambda>_. opNamed [])(0 := opNamed ''getA'', 1 := opNamed ''getA'', 2 := opNamed ''getA'')"

definition scenario_store_alt :: store where
  "scenario_store_alt =
     (\<lambda>_. opNamed [])(0 := opNamed ''getA'', 1 := opNamed ''getA'', 2 := opNamed ''getB'')"

definition scenario_primary :: "(string, string) Swagger" where
  "scenario_primary = docOfPaths [(''/a'', emptyItem\<lparr>Get := Some 0\<rparr>)]"

definition scenario_mixin :: "(string, string) Swagger" where
  "scenario_mixin =
     docOfPaths [(''/a'', emptyItem\<lparr>Get := Some 1\<rparr>), (''/b'', emptyItem\<lparr>Get := Some 2\<rparr>)]"

definition scenario_mixin_rev :: "(string, string) Swagger" where
  "scenario_mixin_rev =
     docOfPaths [(''/b'', emptyItem\<lparr>Get := Some 2\<rparr>), (''/a'', emptyItem\<lparr>Get := Some 1\<rparr>)]"

text \<open>
  A primary and two mixins with collisions in every collection: two among the
  definitions, two among the paths, two among the parameters, one among the responses.
\<close>

definition count_store :: store where
  "count_store =
     (\<lambda>_. opNamed [])
     (0 := opNamed ''getA'', 1 := opNamed ''getA0'', 2 := opNamed ''getB'',
      3 := opNamed ''getB'', 4 := opNamed ''getB'')"

definition count_primary :: "(string, string) Swagger" where
  "count_primary =
     \<lparr>Swagger.Paths = Some \<lparr>Paths.Paths = Some [(''/a'', emptyItem\<lparr>Get := Some 0\<rparr>)]\<rparr>,
      Definitions = Some [(''A'', ''schema A'')],
      Parameters = Some [(''p'', ''param p'')],
      Swagger.Responses = Some [(''r'', \<lparr>Description = ''r'', Ref = None\<rparr>)]\<rparr>"

definition count_mixin0 :: "(string, string) Swagger" where
  "count_mixin0 =
     \<lparr>Swagger.Paths = Some \<lparr>Paths.Paths = Some
        [(''/a'', emptyItem\<lparr>Get := Some 1\<rparr>), (''/b'', emptyItem\<lparr>Post := Some 2\<rparr>)]\<rparr>,
      Definitions = Some [(''A'', ''schema A0''), (''B'', ''schema B'')],
      Parameters = Some [(''q'', ''param q'')],
      Swagger.Responses = Some [(''r'', \<lparr>Description = ''r0'', Ref = None\<rparr>)]\<rparr>"

definition count_mixin1 :: "(string, string) Swagger" where
  "count_mixin1 =
     \<lparr>Swagger.Paths = Some \<lparr>Paths.Paths = Some
        [(''/b'', emptyItem\<lparr>Get := Some 3\<rparr>), (''/c'', emptyItem\<lparr>Get := Some 4\<rparr>)]\<rparr>,
      Definitions = Some [(''B'', ''schema B1''), (''C'', ''schema C'')],
      Parameters = Some [(''q'', ''param q1''), (''p'', ''param p1'')],
      Swagger.Responses = None\<rparr>"

text \<open>A primary and two mixins with pairwise disjoint keys.\<close>

definition union_primary :: "(string, string) Swagger" where
  "union_primary = count_primary"

definition union_mixin0 :: "(string, string) Swagger" where
  "union_mixin0 =
     \<lparr>Swagger.Paths = Some \<lparr>Paths.Paths = Some [(''/b'', emptyItem\<lparr>Post := Some 2\<rparr>)]\<rparr>,
      Definitions = Some [(''B'', ''schema B'')],
      Parameters = Some [(''q'', ''param q'')],
      Swagger.Responses = Some [(''r0'', \<lparr>Description = ''r0'', Ref = None\<rparr>)]\<rparr>"

definition union_mixin1 :: "(string, string) Swagger" where
  "union_mixin1 =
     \<lparr>Swagger.Paths = Some \<lparr>Paths.Paths = Some [(''/c'', emptyItem\<lparr>Get := Some 4\<rparr>)]\<rparr>,
      Definitions = Some [(''C'', ''schema C'')],
      Parameters = None,
      Swagger.Responses = None\<rparr>"

text \<open>
  Operations without an \<^verbatim>\<open>operationId\<close>: one in the primary and one in the mixin.
\<close>

definition empty_store :: store where
  "empty_store = (\<lambda>_. opNamed [])(0 := opNamed [], 1 := opNamed [])"

definition empty_primary :: "(string, string) Swagger" where
  "empty_primary = docOfPaths [(''/p'', emptyItem\<lparr>Get := Some 0\<rparr>)]"

definition empty_mixin :: "(string, string) Swagger" where
  "empty_mixin = docOfPaths [(''/m'', emptyItem\<lparr>Get := Some 1\<rparr>)]"

text \<open>A primary without paths and a mixin with three operations without an identifier.\<close>

definition empty3_primary :: "(string, string) Swagger" where
  "empty3_primary = docOfPaths []"

definition empty3_mixin :: "(string, string) Swagger" where
  "empty3_mixin =
     docOfPaths [(''/x'', emptyItem\<lparr>Get := Some 1\<rparr>), (''/y'', emptyItem\<lparr>Get := Some 2\<rparr>),
                 (''/z'', emptyItem\<lparr>Get := Some 3\<rparr>)]"

text \<open>A primary without definitions (a \<^verbatim>\<open>nil\<close> map) and an operation without responses.\<close>

definition nil_primary :: "(string, string) Swagger" where
  "nil_primary = count_primary\<lparr>Definitions := None\<rparr>"

definition nil_store :: store where
  "nil_store = (\<lambda>_. opNamed [])(0 := \<lparr>ID = ''getA'', Operation.Responses = None\<rparr>)"

text \<open>
  A primary that already has the identifier that the renaming produces: \<^verbatim>\<open>getA\<close> at
  address 0 and \<^verbatim>\<open>getAMixin0\<close> at address 1; the mixin has \<^verbatim>\<open>getA\<close> at address 2.
\<close>

definition clash_store :: store where
  "clash_store =
     (\<lambda>_. opNamed [])(0 := opNamed ''getA'', 1 := opNamed ''getAMixin0'', 2 := opNamed ''getA'')"

definition clash_primary :: "(string, string) Swagger" where
  "clash_primary =
     docOfPaths [(''/p'', emptyItem\<lparr>Get := Some 0\<rparr>), (''/q'', emptyItem\<lparr>Get := Some 1\<rparr>)]"

definition clash_mixin :: "(string, string) Swagger" where
  "clash_mixin = docOfPaths [(''/b'', emptyItem\<lparr>Get := Some 2\<rparr>)]"

text \<open>
  A primary and two mixins whose identifiers are unique within each document:
  \<^verbatim>\<open>getA\<close> in the primary, \<^verbatim>\<open>getA\<close> and \<^verbatim>\<open>getB\<close> in each mixin.
\<close>

definition unique_store :: store where
  "unique_store =
     (\<lambda>_. opNamed [])
     (0 := opNamed ''getA'', 1 := opNamed ''getA'', 2 := opNamed ''getB'',
      3 := opNamed ''getA'', 4 := opNamed ''getB'')"

definition unique_primary :: "(string, string) Swagger" where
  "unique_primary = docOfPaths [(''/a'', emptyItem\<lparr>Get := Some 0\<rparr>)]"

definition unique_mixin0 :: "(string, string) Swagger" where
  "unique_mixin0 = docOfPaths [(''/b'', emptyItem\<lparr>Get := Some 1, Post := Some 2\<rparr>)]"

definition unique_mixin1 :: "(string, string) Swagger" where
  "unique_mixin1 =
     docOfPaths [(''/c'', emptyItem\<lparr>Get := Some 3\<rparr>), (''/d'', emptyItem\<lparr>Delete := Some 4\<rparr>)]"

text \<open>
  An environment for \<open>MixinFiles\<close>: two files holding the documents of the scenario, a
  serializer that succeeds, and a writer that fails without writing anything.
\<close>

definition scenario_files :: "string \<Rightarrow> string + (string, string) Swagger" where
  "scenario_files file =
     (if file = ''primary.json'' then Inr scenario_primary
      else if file = ''mixin.json'' then Inr scenario_mixin
      else Inl ''open: no such file'')"

definition marshal_ok :: "store \<Rightarrow> (string, string) Swagger \<Rightarrow> string + string" where
  "marshal_ok \<sigma> s = Inr ''{}''"

definition write_fails :: "string list \<Rightarrow> string \<Rightarrow> string list \<times> string option" where
  "write_fails w bs = (w, Some ''write: broken pipe'')"

section \<open>Properties of the description repair and of the scan\<close>

lemma update_fresh: "k \<notin> fst ` set xs \<Longrightarrow> AList.update k v xs = xs @ [(k, v)]"
  by (induction xs) auto

lemma update_in_place:
  "k \<notin> fst ` set pre \<Longrightarrow> AList.update k v (pre @ (k, w) # rest) = pre @ (k, v) # rest"
  by (induction pre) auto

lemma FixEmptyDesc_repaired: "FixEmptyDesc p = map_option repaired p"
  by (cases p) (auto simp: FixEmptyDesc_def repaired_def)

lemma repaired_idem: "repaired (repaired r) = repaired r"
  by (simp add: repaired_def)

lemma fixEntries_closed:
  "distinct (map fst (pre @ es)) \<Longrightarrow>
   fixEntries es (Some (pre @ es)) = Inr (Some (pre @ map (\<lambda>e. (fst e, repaired (snd e))) es))"
proof (induction es arbitrary: pre)
  case Nil
  then show ?case by simp
next
  case (Cons e es)
  obtain k v where e: "e = (k, v)" by (cases e)
  from Cons.prems have fresh: "k \<notin> fst ` set pre" by (auto simp: e)
  from Cons.prems have d: "distinct (map fst ((pre @ [(k, repaired v)]) @ es))" by (auto simp: e)
  show ?case
    using Cons.IH [OF d] by (simp add: e assign_def FixEmptyDesc_repaired update_in_place [OF fresh])
qed

lemma fixEntries_repairedMap:
  "distinct (keys m) \<Longrightarrow> fixEntries (entries m) m = Inr (repairedMap m)"
proof (cases m)
  case None
  then show ?thesis by (simp add: entries_def repairedMap_def)
next
  case (Some xs)
  assume "distinct (keys m)"
  then have "distinct (map fst ([] @ xs))" by (simp add: keys_def entries_def Some)
  from fixEntries_closed [OF this] show ?thesis by (simp add: Some entries_def repairedMap_def)
qed

lemma keys_repairedMap: "keys (repairedMap m) = keys m"
  by (cases m) (simp_all add: keys_def entries_def repairedMap_def comp_def)

lemma repairedMap_idem: "repairedMap (repairedMap m) = repairedMap m"
  by (cases m) (simp_all add: repairedMap_def repaired_idem comp_def)

lemma repairedResponses_idem: "repairedResponses (repairedResponses rs) = repairedResponses rs"
  by (simp add: repairedResponses_def repairedMap_idem option.map_comp comp_def repaired_idem)

lemma repairedOp_idem: "repairedOp (repairedOp op) = repairedOp op"
  by (simp add: repairedOp_def option.map_comp comp_def repairedResponses_idem)

lemma wfOp_repairedOp: "wfOp (repairedOp op) = wfOp op"
  by (cases "Operation.Responses op")
     (simp_all add: wfOp_def repairedOp_def repairedResponses_def keys_repairedMap)

lemma FixEmptyDescs_closed:
  "distinct (keys (StatusCodeResponses r)) \<Longrightarrow> FixEmptyDescs (Some r) = Inr (repairedResponses r)"
  by (simp add: FixEmptyDescs_def fixEntries_repairedMap repairedResponses_def FixEmptyDesc_repaired)

lemma fixMethod_closed:
  "wfOp (\<sigma> a) \<Longrightarrow>
   fixMethod (Some a) \<sigma> =
     (if Operation.Responses (\<sigma> a) = None then Inl NilDereference
      else Inr (\<sigma>(a := repairedOp (\<sigma> a))))"
proof (cases "Operation.Responses (\<sigma> a)")
  case None
  then show ?thesis by (simp add: fixMethod_def FixEmptyDescs_def)
next
  case (Some rs)
  assume "wfOp (\<sigma> a)"
  then have "distinct (keys (StatusCodeResponses rs))" by (simp add: wfOp_def Some)
  then show ?thesis by (simp add: fixMethod_def Some FixEmptyDescs_closed repairedOp_def)
qed

lemma fixAll_closed:
  "list_all (\<lambda>a. wfOp (\<sigma> a)) as \<Longrightarrow>
   fixAll as \<sigma> =
     (if \<exists>a \<in> set as. Operation.Responses (\<sigma> a) = None then Inl NilDereference
      else Inr (\<lambda>a. if a \<in> set as then repairedOp (\<sigma> a) else \<sigma> a))"
proof (induction as arbitrary: \<sigma>)
  case Nil
  then show ?case by simp
next
  case (Cons a as)
  from Cons.prems have wa: "wfOp (\<sigma> a)" and was: "list_all (\<lambda>a. wfOp (\<sigma> a)) as" by simp_all
  show ?case
  proof (cases "Operation.Responses (\<sigma> a) = None")
    case True
    then show ?thesis using fixMethod_closed [of \<sigma> a] wa by simp
  next
    case False
    define \<sigma>1 where "\<sigma>1 = \<sigma>(a := repairedOp (\<sigma> a))"
    have step: "fixMethod (Some a) \<sigma> = Inr \<sigma>1"
      using False fixMethod_closed [of \<sigma> a] wa by (simp add: \<sigma>1_def)
    have w1: "list_all (\<lambda>b. wfOp (\<sigma>1 b)) as"
      using was wa by (simp add: list_all_iff wfOp_repairedOp \<sigma>1_def)
    have none_iff: "\<And>b. (Operation.Responses (\<sigma>1 b) = None) = (Operation.Responses (\<sigma> b) = None)"
      by (simp add: repairedOp_def \<sigma>1_def)
    have fn: "(\<lambda>b. if b \<in> set as then repairedOp (\<sigma>1 b) else \<sigma>1 b) =
          (\<lambda>b. if b \<in> set (a # as) then repairedOp (\<sigma> b) else \<sigma> b)"
      by (rule ext) (simp add: repairedOp_idem \<sigma>1_def)
    have "fixAll (a # as) \<sigma> = fixAll as \<sigma>1" by (simp add: step)
    also have "\<dots> = (if \<exists>a \<in> set as. Operation.Responses (\<sigma>1 a) = None then Inl NilDereference
      else Inr (\<lambda>a. if a \<in> set as then repairedOp (\<sigma>1 a) else \<sigma>1 a))"
      by (rule Cons.IH [OF w1])
    also have "\<dots> = (if \<exists>b \<in> set (a # as). Operation.Responses (\<sigma> b) = None then Inl NilDereference
      else Inr (\<lambda>b. if b \<in> set (a # as) then repairedOp (\<sigma> b) else \<sigma> b))"
      unfolding fn none_iff using False by simp
    finally show ?thesis .
  qed
qed

lemma fixAll_append:
  "fixAll (as @ bs) \<sigma> = (case fixAll as \<sigma> of Inl e \<Rightarrow> Inl e | Inr \<sigma>' \<Rightarrow> fixAll bs \<sigma>')"
  by (induction as arbitrary: \<sigma>) (simp_all split: sum.splits)

lemma fixMethods_fixAll: "fixMethods ps \<sigma> = fixAll (ptrs ps) \<sigma>"
proof (induction ps arbitrary: \<sigma>)
  case Nil
  then show ?case by simp
next
  case (Cons p ps)
  then show ?case by (cases p) (simp_all add: fixMethod_def split: sum.splits)
qed

lemma fixPaths_fixAll:
  "fixPaths es \<sigma> = fixAll (concat (map (\<lambda>e. ptrs (repairedMethods (snd e))) es)) \<sigma>"
proof (induction es arbitrary: \<sigma>)
  case Nil
  then show ?case by simp
next
  case (Cons e es)
  obtain k v where e: "e = (k, v)" by (cases e)
  show ?case by (simp add: e fixMethods_fixAll fixAll_append Cons.IH split: sum.splits)
qed

lemma FixEmptyResponseDescriptions_closed:
  assumes "wfRepair \<sigma> s"
  shows "FixEmptyResponseDescriptions \<sigma> s =
     (if Swagger.Paths s = None \<or> (\<exists>a \<in> set (repairedOps s). Operation.Responses (\<sigma> a) = None)
      then Inl NilDereference
      else Inr (\<lambda>a. if a \<in> set (repairedOps s) then repairedOp (\<sigma> a) else \<sigma> a,
                s\<lparr>Swagger.Responses := repairedMap (Swagger.Responses s)\<rparr>))"
proof (cases "Swagger.Paths s")
  case None
  then show ?thesis by (simp add: FixEmptyResponseDescriptions_def)
next
  case (Some ps)
  have ops: "repairedOps s = concat (map (\<lambda>e. ptrs (repairedMethods (snd e))) (entries (Paths.Paths ps)))"
    by (simp add: repairedOps_def pathsOf_def pathEntries_def Some)
  from assms have d: "distinct (keys (Swagger.Responses s))"
    and w: "list_all (\<lambda>a. wfOp (\<sigma> a)) (repairedOps s)"
    by (simp_all add: wfRepair_def)
  have "fixPaths (entries (Paths.Paths ps)) \<sigma> = fixAll (repairedOps s) \<sigma>"
    by (simp add: fixPaths_fixAll ops)
  then show ?thesis
    by (simp add: FixEmptyResponseDescriptions_def Some fixAll_closed [OF w] fixEntries_repairedMap [OF d])
qed

lemma wfRepair_repaired:
  assumes "wfRepair \<sigma> s"
  shows "wfRepair (\<lambda>a. if a \<in> set (repairedOps s) then repairedOp (\<sigma> a) else \<sigma> a)
           (s\<lparr>Swagger.Responses := repairedMap (Swagger.Responses s)\<rparr>)"
proof -
  have "repairedOps (s\<lparr>Swagger.Responses := repairedMap (Swagger.Responses s)\<rparr>) = repairedOps s"
    by (simp add: repairedOps_def pathsOf_def)
  then show ?thesis
    using assms by (simp add: wfRepair_def keys_repairedMap list_all_iff wfOp_repairedOp)
qed

text \<open>
  Claim C5. The description repair is idempotent: on a document on which it returns, a
  second application returns the same store and document. After one application the
  top-level responses and the responses of every operation reachable through one of the
  seven methods of a path item are the old ones with \<open>repaired\<close> applied to each response,
  every other operation is as before; \<open>repaired\<close> leaves a reference as it is, and on a
  response that is no reference it keeps a non-empty description and replaces the empty
  one by \<^verbatim>\<open>(empty)\<close>.
\<close>

theorem repair_idempotent:
  assumes "wfRepair \<sigma> s" and "FixEmptyResponseDescriptions \<sigma> s = Inr (\<sigma>', s')"
  shows "FixEmptyResponseDescriptions \<sigma>' s' = Inr (\<sigma>', s') \<and>
         s' = s\<lparr>Swagger.Responses := repairedMap (Swagger.Responses s)\<rparr> \<and>
         (\<forall>a. \<sigma>' a = (if a \<in> set (repairedOps s) then repairedOp (\<sigma> a) else \<sigma> a)) \<and>
         (\<forall>r. Ref (repaired r) = Ref r \<and>
              Description (repaired r) =
                (if Ref r = None \<and> Description r = [] then ''(empty)'' else Description r))"
proof -
  let ?\<sigma> = "\<lambda>a. if a \<in> set (repairedOps s) then repairedOp (\<sigma> a) else \<sigma> a"
  let ?s = "s\<lparr>Swagger.Responses := repairedMap (Swagger.Responses s)\<rparr>"
  from assms have ok: "\<not> (Swagger.Paths s = None \<or> (\<exists>a \<in> set (repairedOps s). Operation.Responses (\<sigma> a) = None))"
    and \<sigma>': "\<sigma>' = ?\<sigma>" and s': "s' = ?s"
    by (auto simp: FixEmptyResponseDescriptions_closed split: if_splits)
  have ops: "repairedOps ?s = repairedOps s"
    by (simp add: repairedOps_def pathsOf_def)
  have ok2: "\<not> (Swagger.Paths ?s = None \<or> (\<exists>a \<in> set (repairedOps ?s). Operation.Responses (?\<sigma> a) = None))"
    using ok by (auto simp: ops repairedOp_def)
  have fn: "(\<lambda>a. if a \<in> set (repairedOps ?s) then repairedOp (?\<sigma> a) else ?\<sigma> a) = ?\<sigma>"
    by (rule ext) (simp add: ops repairedOp_idem)
  have "FixEmptyResponseDescriptions ?\<sigma> ?s = Inr (?\<sigma>, ?s)"
    unfolding FixEmptyResponseDescriptions_closed [OF wfRepair_repaired [OF assms(1)]] fn
    using ok2 by (simp add: repairedMap_idem)
  then show ?thesis
    by (simp add: \<sigma>' s' repaired_def)
qed

lemma set_appendOp: "set (appendOp ops op) = set ops \<union> {a. op = Some a}"
  by (cases op) (auto simp: appendOp_def)

lemma set_pathItemOps:
  "set (pathItemOps p) =
     {a. Get p = Some a \<or> Put p = Some a \<or> Post p = Some a \<or> Delete p = Some a \<or>
         Head p = Some a \<or> Patch p = Some a}"
  by (auto simp: pathItemOps_def Let_def set_appendOp)

lemma set_ptrs: "set (ptrs ps) = {a. Some a \<in> set ps}"
  by (induction ps rule: ptrs.induct) auto

lemma fold_insert_ids:
  "fold (\<lambda>op rv. insert (ID (\<sigma> op)) rv) as rv = rv \<union> (\<lambda>a. ID (\<sigma> a)) ` set as"
  by (induction as arbitrary: rv) auto

lemma getOpIdsLoop_closed:
  "getOpIdsLoop \<sigma> es rv = rv \<union> (\<lambda>a. ID (\<sigma> a)) ` set (concat (map (\<lambda>e. pathItemOps (snd e)) es))"
proof (induction es arbitrary: rv)
  case Nil
  then show ?case by simp
next
  case (Cons e es)
  obtain k v where e: "e = (k, v)" by (cases e)
  show ?case by (simp add: e Cons.IH fold_insert_ids Un_assoc image_Un)
qed

lemma getOpIds_closed:
  "getOpIds \<sigma> s =
     (case Swagger.Paths s of
        None \<Rightarrow> Inl NilDereference
      | Some ps \<Rightarrow> Inr ((\<lambda>a. ID (\<sigma> a)) ` set (scannedOps s)))"
  by (simp add: getOpIds_def getOpIdsLoop_closed scannedOps_def pathsOf_def pathEntries_def split: option.splits)

text \<open>
  Claim C8. The identifier scan of a path item covers exactly Get, Put, Post, Delete,
  Head and Patch: the registry that \<open>getOpIds\<close> returns holds exactly the identifiers of
  operations under these six methods, so an identifier held only by an OPTIONS operation
  is not in it. The repair covers Options as well: the responses of every OPTIONS
  operation of a path item are repaired.
\<close>

theorem scan_excludes_Options:
  "set (pathItemOps p) =
     {a. Get p = Some a \<or> Put p = Some a \<or> Post p = Some a \<or> Delete p = Some a \<or>
         Head p = Some a \<or> Patch p = Some a} \<and>
   (getOpIds \<sigma> s = Inr seen \<longrightarrow>
      (\<forall>x. x \<in> seen \<longleftrightarrow>
           (\<exists>e \<in> set (pathsOf s). \<exists>a \<in> set (pathItemOps (snd e)). ID (\<sigma> a) = x))) \<and>
   (wfRepair \<sigma> s \<longrightarrow> FixEmptyResponseDescriptions \<sigma> s = Inr (\<sigma>', s') \<longrightarrow>
      (\<forall>e \<in> set (pathsOf s). \<forall>a. Options (snd e) = Some a \<longrightarrow> \<sigma>' a = repairedOp (\<sigma> a)))"
proof (intro conjI impI)
  show "set (pathItemOps p) =
     {a. Get p = Some a \<or> Put p = Some a \<or> Post p = Some a \<or> Delete p = Some a \<or>
         Head p = Some a \<or> Patch p = Some a}"
    by (rule set_pathItemOps)
next
  assume "getOpIds \<sigma> s = Inr seen"
  then have "seen = (\<lambda>a. ID (\<sigma> a)) ` set (scannedOps s)"
    by (simp add: getOpIds_closed split: option.splits)
  then show "\<forall>x. x \<in> seen \<longleftrightarrow>
           (\<exists>e \<in> set (pathsOf s). \<exists>a \<in> set (pathItemOps (snd e)). ID (\<sigma> a) = x)"
    by (auto simp: scannedOps_def)
next
  assume w: "wfRepair \<sigma> s" and r: "FixEmptyResponseDescriptions \<sigma> s = Inr (\<sigma>', s')"
  from r have \<sigma>': "\<sigma>' = (\<lambda>a. if a \<in> set (repairedOps s) then repairedOp (\<sigma> a) else \<sigma> a)"
    by (auto simp: FixEmptyResponseDescriptions_closed [OF w] split: if_splits)
  show "\<forall>e \<in> set (pathsOf s). \<forall>a. Options (snd e) = Some a \<longrightarrow> \<sigma>' a = repairedOp (\<sigma> a)"
  proof (intro ballI allI impI)
    fix e a
    assume e: "e \<in> set (pathsOf s)" and o: "Options (snd e) = Some a"
    have "a \<in> set (ptrs (repairedMethods (snd e)))"
      by (simp add: set_ptrs repairedMethods_def o [symmetric])
    with e have "a \<in> set (repairedOps s)" by (auto simp: repairedOps_def)
    then show "\<sigma>' a = repairedOp (\<sigma> a)" by (simp add: \<sigma>')
  qed
qed

lemmas example_defs =
  emptyItem_def noResponses_def opNamed_def docOfPaths_def repair_store_def repair_doc_def
  scenario_store_def scenario_primary_def scenario_mixin_def scenario_mixin_rev_def
  count_store_def count_primary_def count_mixin0_def count_mixin1_def
  union_primary_def union_mixin0_def union_mixin1_def
  empty_store_def empty_primary_def empty_mixin_def nil_primary_def nil_store_def
  scenario_store_alt_def empty3_primary_def empty3_mixin_def
  clash_store_def clash_primary_def clash_mixin_def
  unique_store_def unique_primary_def unique_mixin0_def unique_mixin1_def
  scenario_files_def marshal_ok_def write_fails_def

lemmas eval_defs =
  entries_def keys_def has_key_def assign_def pathEntries_def pathsOf_def pathsMap_def scannedOps_def
  repairedOps_def repairedMethods_def pathItemOps_def appendOp_def wfRepair_def wfOp_def
  FixEmptyResponseDescriptions_def FixEmptyDescs_def FixEmptyDesc_def fixMethod_def
  Mixin_def mixinStep_def getOpIds_def digit_def dec.simps
  wfKeys_def totalCollisions_def disjointKeys_def disjointDocs_def carriedOps_def
  nilFault_def allScannedOps_def uniqueIds_def noRenameClash_def

text \<open>Claim C5 on the example document.\<close>

theorem repair_idempotent_witness:
  "wfRepair repair_store repair_doc \<and>
   FixEmptyResponseDescriptions
     (fst (projr (FixEmptyResponseDescriptions repair_store repair_doc)))
     (snd (projr (FixEmptyResponseDescriptions repair_store repair_doc))) =
   Inr (projr (FixEmptyResponseDescriptions repair_store repair_doc)) \<and>
   map_option Description
     (Default (the (Operation.Responses
        (fst (projr (FixEmptyResponseDescriptions repair_store repair_doc)) 0)))) =
   Some ''(empty)''"
proof -
  have w: "wfRepair repair_store repair_doc"
    by (simp add: example_defs eval_defs)
  have nf: "\<not> isl (FixEmptyResponseDescriptions repair_store repair_doc)"
    by (simp add: example_defs eval_defs)
  then have r: "FixEmptyResponseDescriptions repair_store repair_doc =
      Inr (fst (projr (FixEmptyResponseDescriptions repair_store repair_doc)),
           snd (projr (FixEmptyResponseDescriptions repair_store repair_doc)))"
    by simp
  have v: "map_option Description
     (Default (the (Operation.Responses
        (fst (projr (FixEmptyResponseDescriptions repair_store repair_doc)) 0)))) =
     Some ''(empty)''"
    by (simp add: example_defs eval_defs)
  have "FixEmptyResponseDescriptions
     (fst (projr (FixEmptyResponseDescriptions repair_store repair_doc)))
     (snd (projr (FixEmptyResponseDescriptions repair_store repair_doc))) =
     Inr (projr (FixEmptyResponseDescriptions repair_store repair_doc))"
    using conjunct1 [OF repair_idempotent [OF w r]] by (simp only: prod.collapse)
  with w v show ?thesis by (intro conjI)
qed

section \<open>Properties of the merge\<close>

lemma mergeEntries_Some:
  "distinct (map fst es) \<Longrightarrow>
   mergeEntries es (Some xs, c) =
     Inr (Some (xs @ filter (\<lambda>e. fst e \<notin> fst ` set xs) es),
          c + of_nat (length (filter (\<lambda>k. k \<in> fst ` set xs) (map fst es))))"
proof (induction es arbitrary: xs c)
  case Nil
  then show ?case by simp
next
  case (Cons e es)
  obtain k v where e: "e = (k, v)" by (cases e)
  from Cons.prems have d: "distinct (map fst es)" and fresh: "k \<notin> fst ` set es"
    by (auto simp: e)
  show ?case
  proof (cases "k \<in> fst ` set xs")
    case True
    then show ?thesis
      by (simp add: e has_key_def keys_def entries_def Cons.IH [OF d] add.assoc add.commute)
  next
    case False
    have f1: "filter (\<lambda>e. fst e \<notin> fst ` set (xs @ [(k, v)])) es = filter (\<lambda>e. fst e \<notin> fst ` set xs) es"
      using fresh by (intro filter_cong) auto
    have f2: "filter (\<lambda>x. x \<in> fst ` set (xs @ [(k, v)])) (map fst es) = filter (\<lambda>x. x \<in> fst ` set xs) (map fst es)"
      using fresh by (intro filter_cong) auto
    show ?thesis
      using False Cons.IH [OF d, of "xs @ [(k, v)]" c, unfolded f1 f2]
      by (simp add: e has_key_def keys_def entries_def assign_def update_fresh)
  qed
qed

lemma mergeEntries_result:
  assumes "distinct (map fst es)" and "mergeEntries es (pm, c) = Inr (pm', c')"
  shows "entries pm' = entries pm @ filter (\<lambda>e. fst e \<notin> fst ` set (entries pm)) es \<and>
         c' = c + of_nat (length (filter (\<lambda>k. k \<in> set (keys pm)) (map fst es))) \<and>
         (pm' = None) = (pm = None)"
proof (cases pm)
  case None
  with assms(2) have "es = []"
    by (cases es) (auto simp: has_key_def keys_def entries_def assign_def)
  with assms(2) None show ?thesis by (simp add: entries_def)
next
  case (Some xs)
  with assms show ?thesis
    by (auto simp: mergeEntries_Some entries_def keys_def)
qed

lemma renameOps_append:
  "renameOps i (as @ bs) st = renameOps i bs (renameOps i as st)"
proof (induction as arbitrary: st)
  case Nil
  then show ?case by simp
next
  case (Cons a as)
  obtain \<sigma> seen where st: "st = (\<sigma>, seen)" by (cases st)
  show ?case by (simp add: st Let_def Cons.IH)
qed

lemma Paths_update: "ps\<lparr>Paths.Paths := pm\<rparr> = \<lparr>Paths.Paths = pm\<rparr>"
  by (cases ps) simp

lemma mergePaths_Some:
  "distinct (map fst es) \<Longrightarrow>
   mergePaths i es (\<sigma>, seen, Some \<lparr>Paths.Paths = Some xs\<rparr>, c) =
     (case renameOps i (concat (map (\<lambda>e. pathItemOps (snd e)) (filter (\<lambda>e. fst e \<notin> fst ` set xs) es))) (\<sigma>, seen) of
        (\<sigma>', seen') \<Rightarrow>
          Inr (\<sigma>', seen', Some \<lparr>Paths.Paths = Some (xs @ filter (\<lambda>e. fst e \<notin> fst ` set xs) es)\<rparr>,
               c + of_nat (length (filter (\<lambda>k. k \<in> fst ` set xs) (map fst es)))))"
proof (induction es arbitrary: xs c \<sigma> seen)
  case Nil
  then show ?case by simp
next
  case (Cons e es)
  obtain k v where e: "e = (k, v)" by (cases e)
  from Cons.prems have d: "distinct (map fst es)" and fresh: "k \<notin> fst ` set es"
    by (auto simp: e)
  show ?case
  proof (cases "k \<in> fst ` set xs")
    case True
    then show ?thesis
      by (simp add: e has_key_def keys_def entries_def Cons.IH [OF d] add.assoc add.commute
               split: prod.splits)
  next
    case False
    have f1: "filter (\<lambda>e. fst e \<notin> fst ` set (xs @ [(k, v)])) es = filter (\<lambda>e. fst e \<notin> fst ` set xs) es"
      using fresh by (intro filter_cong) auto
    have f2: "filter (\<lambda>x. x \<in> fst ` set (xs @ [(k, v)])) (map fst es) = filter (\<lambda>x. x \<in> fst ` set xs) (map fst es)"
      using fresh by (intro filter_cong) auto
    obtain \<sigma>1 seen1 where r: "renameOps i (pathItemOps v) (\<sigma>, seen) = (\<sigma>1, seen1)"
      by (cases "renameOps i (pathItemOps v) (\<sigma>, seen)")
    show ?thesis
      using False Cons.IH [OF d, of \<sigma>1 seen1 "xs @ [(k, v)]" c, unfolded f1 f2]
      by (simp add: e has_key_def keys_def entries_def assign_def update_fresh r
                    renameOps_append Paths_update)
  qed
qed

lemma mergePaths_result:
  assumes "distinct (map fst es)" and "mergePaths i es (\<sigma>, seen, pp, c) = Inr (\<sigma>', seen', pp', c')"
  shows "pathEntries pp' = pathEntries pp @ filter (\<lambda>e. fst e \<notin> fst ` set (pathEntries pp)) es \<and>
         c' = c + of_nat (length (filter (\<lambda>k. k \<in> fst ` set (pathEntries pp)) (map fst es))) \<and>
         (\<sigma>', seen') = renameOps i (concat (map (\<lambda>e. pathItemOps (snd e))
                           (filter (\<lambda>e. fst e \<notin> fst ` set (pathEntries pp)) es))) (\<sigma>, seen)"
proof (cases es)
  case Nil
  with assms(2) show ?thesis by simp
next
  case (Cons e es')
  obtain k v where e: "e = (k, v)" by (cases e)
  from assms(2) obtain ps where pp: "pp = Some ps"
    by (cases pp) (auto simp: Cons e)
  from assms(2) obtain xs where xs: "Paths.Paths ps = Some xs"
    by (cases "Paths.Paths ps")
       (auto simp: Cons e pp has_key_def keys_def entries_def assign_def split: prod.splits)
  have ps: "ps = \<lparr>Paths.Paths = Some xs\<rparr>" using xs by (cases ps) simp
  from assms show ?thesis
    by (auto simp: pp ps mergePaths_Some pathEntries_def entries_def split: prod.splits)
qed

lemma mixinStep_result:
  assumes w: "wfKeys m" and r: "mixinStep i m (\<sigma>, seen, P, c) = Inr (\<sigma>', seen', P', c')"
  shows "entries (Definitions P') =
           entries (Definitions P) @
           filter (\<lambda>e. fst e \<notin> fst ` set (entries (Definitions P))) (entries (Definitions m)) \<and>
         pathsOf P' = pathsOf P @ filter (\<lambda>e. fst e \<notin> fst ` set (pathsOf P)) (pathsOf m) \<and>
         entries (Parameters P') =
           entries (Parameters P) @
           filter (\<lambda>e. fst e \<notin> fst ` set (entries (Parameters P))) (entries (Parameters m)) \<and>
         entries (Swagger.Responses P') =
           entries (Swagger.Responses P) @
           filter (\<lambda>e. fst e \<notin> fst ` set (entries (Swagger.Responses P))) (entries (Swagger.Responses m)) \<and>
         c' = c + of_nat
           (length (filter (\<lambda>k. k \<in> set (keys (Definitions P))) (keys (Definitions m))) +
            length (filter (\<lambda>k. k \<in> set (map fst (pathsOf P))) (map fst (pathsOf m))) +
            length (filter (\<lambda>k. k \<in> set (keys (Parameters P))) (keys (Parameters m))) +
            length (filter (\<lambda>k. k \<in> set (keys (Swagger.Responses P))) (keys (Swagger.Responses m)))) \<and>
         (\<sigma>', seen') =
           renameOps i (concat (map (\<lambda>e. pathItemOps (snd e))
             (filter (\<lambda>e. fst e \<notin> fst ` set (pathsOf P)) (pathsOf m)))) (\<sigma>, seen)"
proof -
  from w have dd: "distinct (map fst (entries (Definitions m)))"
    and dp: "distinct (map fst (pathsOf m))"
    and da: "distinct (map fst (entries (Parameters m)))"
    and dr: "distinct (map fst (entries (Swagger.Responses m)))"
    by (simp_all add: wfKeys_def keys_def)
  from r obtain defs c1 where
    s1: "mergeEntries (entries (Definitions m)) (Definitions P, c) = Inr (defs, c1)"
    by (auto simp: mixinStep_def split: sum.splits)
  from r s1 obtain mp where mp: "Swagger.Paths m = Some mp"
    by (auto simp: mixinStep_def split: option.splits)
  have pm: "pathsOf m = entries (Paths.Paths mp)"
    by (simp add: pathsOf_def pathEntries_def mp)
  from r s1 mp obtain \<sigma>2 seen2 pp c2 where
    s2: "mergePaths i (pathsOf m) (\<sigma>, seen, Swagger.Paths P, c1) = Inr (\<sigma>2, seen2, pp, c2)"
    by (auto simp: mixinStep_def pm split: sum.splits)
  from r s1 mp s2 obtain params c3 where
    s3: "mergeEntries (entries (Parameters m)) (Parameters P, c2) = Inr (params, c3)"
    by (auto simp: mixinStep_def pm split: sum.splits)
  from r s1 mp s2 s3 obtain resps c4 where
    s4: "mergeEntries (entries (Swagger.Responses m)) (Swagger.Responses P, c3) = Inr (resps, c4)"
    by (auto simp: mixinStep_def pm split: sum.splits)
  from r s1 mp s2 s3 s4 have res: "\<sigma>' = \<sigma>2" "seen' = seen2" "c' = c4"
    "P' = P\<lparr>Swagger.Paths := pp, Definitions := defs, Parameters := params, Swagger.Responses := resps\<rparr>"
    by (auto simp: mixinStep_def pm)
  note m1 = mergeEntries_result [OF dd s1]
  note m2 = mergePaths_result [OF dp s2]
  note m3 = mergeEntries_result [OF da s3]
  note m4 = mergeEntries_result [OF dr s4]
  have count: "c4 = c + of_nat
           (length (filter (\<lambda>k. k \<in> set (keys (Definitions P))) (keys (Definitions m))) +
            length (filter (\<lambda>k. k \<in> set (map fst (pathsOf P))) (map fst (pathsOf m))) +
            length (filter (\<lambda>k. k \<in> set (keys (Parameters P))) (keys (Parameters m))) +
            length (filter (\<lambda>k. k \<in> set (keys (Swagger.Responses P))) (keys (Swagger.Responses m))))"
    using m1 m2 m3 m4 by (simp add: pathsOf_def keys_def add.assoc)
  show ?thesis
    using m1 m2 m3 m4 count by (simp add: res pathsOf_def)
qed

lemma renameTagged_append:
  "renameTagged (xs @ ys) st = renameTagged ys (renameTagged xs st)"
  by (induction xs arbitrary: st) auto

lemma renameOps_tagged: "renameOps i as st = renameTagged (map (Pair i) as) st"
proof (induction as arbitrary: st)
  case Nil
  then show ?case by simp
next
  case (Cons a as)
  have "renameOps i (a # as) st = renameOps i as (renameOps i [a] st)"
    using renameOps_append [of i "[a]" as st] by simp
  then show ?case by (simp add: Cons.IH)
qed

lemma keys_after_merge:
  "set (map fst (xs @ filter (\<lambda>e. fst e \<notin> fst ` set xs) es)) = set (map fst xs) \<union> set (map fst es)"
  by force

lemma mixinLoop_result:
  assumes "\<forall>m \<in> set Ms. wfKeys m"
    and "mixinLoop i Ms (\<sigma>, seen, P, c) = Inr (\<sigma>', seen', P', c')"
  shows "entries (Definitions P') =
           mergedEntries (entries (Definitions P)) (map (\<lambda>m. entries (Definitions m)) Ms) \<and>
         pathsOf P' = mergedEntries (pathsOf P) (map pathsOf Ms) \<and>
         entries (Parameters P') =
           mergedEntries (entries (Parameters P)) (map (\<lambda>m. entries (Parameters m)) Ms) \<and>
         entries (Swagger.Responses P') =
           mergedEntries (entries (Swagger.Responses P)) (map (\<lambda>m. entries (Swagger.Responses m)) Ms) \<and>
         c' = c + of_nat (totalCollisions P Ms) \<and>
         (\<sigma>', seen') = renameTagged (taggedOps i (pathsOf P) (map pathsOf Ms)) (\<sigma>, seen)"
  using assms
proof (induction Ms arbitrary: i \<sigma> seen P c)
  case Nil
  then show ?case by (simp add: totalCollisions_def)
next
  case (Cons m Ms)
  from Cons.prems(2) obtain \<sigma>1 seen1 P1 c1 where
    step: "mixinStep i m (\<sigma>, seen, P, c) = Inr (\<sigma>1, seen1, P1, c1)"
    and rest: "mixinLoop (Suc i) Ms (\<sigma>1, seen1, P1, c1) = Inr (\<sigma>', seen', P', c')"
    by (auto split: sum.splits)
  from Cons.prems(1) have wm: "wfKeys m" and wms: "\<forall>m \<in> set Ms. wfKeys m" by simp_all
  note s = mixinStep_result [OF wm step]
  note ih = Cons.IH [OF wms rest]
  have k1: "set (keys (Definitions P1)) = set (keys (Definitions P)) \<union> set (keys (Definitions m))"
    unfolding keys_def conjunct1 [OF s] by (rule keys_after_merge)
  have k2: "set (map fst (pathsOf P1)) = set (map fst (pathsOf P)) \<union> set (map fst (pathsOf m))"
    unfolding conjunct1 [OF conjunct2 [OF s]] by (rule keys_after_merge)
  have k3: "set (keys (Parameters P1)) = set (keys (Parameters P)) \<union> set (keys (Parameters m))"
    unfolding keys_def conjunct1 [OF conjunct2 [OF conjunct2 [OF s]]] by (rule keys_after_merge)
  have k4: "set (keys (Swagger.Responses P1)) = set (keys (Swagger.Responses P)) \<union> set (keys (Swagger.Responses m))"
    unfolding keys_def conjunct1 [OF conjunct2 [OF conjunct2 [OF conjunct2 [OF s]]]] by (rule keys_after_merge)
  have tc: "totalCollisions P (m # Ms) =
        length (filter (\<lambda>k. k \<in> set (keys (Definitions P))) (keys (Definitions m))) +
        length (filter (\<lambda>k. k \<in> set (map fst (pathsOf P))) (map fst (pathsOf m))) +
        length (filter (\<lambda>k. k \<in> set (keys (Parameters P))) (keys (Parameters m))) +
        length (filter (\<lambda>k. k \<in> set (keys (Swagger.Responses P))) (keys (Swagger.Responses m))) +
        totalCollisions P1 Ms"
    unfolding totalCollisions_def k1 k2 k3 k4 by simp
  have c': "c' = c + of_nat (totalCollisions P (m # Ms))"
    using s ih unfolding tc by (simp add: add.assoc)
  have rn: "(\<sigma>', seen') = renameTagged (taggedOps i (pathsOf P) (map pathsOf (m # Ms))) (\<sigma>, seen)"
    using s ih by (simp add: renameTagged_append renameOps_tagged [symmetric])
  show ?case
    using s ih c' rn by simp
qed

lemma Mixin_result:
  assumes "\<forall>m \<in> set Ms. wfKeys m" and "Mixin \<sigma> P Ms = Inr (\<sigma>', P', n)"
  shows "entries (Definitions P') =
           mergedEntries (entries (Definitions P)) (map (\<lambda>m. entries (Definitions m)) Ms) \<and>
         pathsOf P' = mergedEntries (pathsOf P) (map pathsOf Ms) \<and>
         entries (Parameters P') =
           mergedEntries (entries (Parameters P)) (map (\<lambda>m. entries (Parameters m)) Ms) \<and>
         entries (Swagger.Responses P') =
           mergedEntries (entries (Swagger.Responses P)) (map (\<lambda>m. entries (Swagger.Responses m)) Ms) \<and>
         n = of_nat (totalCollisions P Ms) \<and>
         \<sigma>' = fst (renameTagged (taggedOps 0 (pathsOf P) (map pathsOf Ms))
                   (\<sigma>, (\<lambda>a. ID (\<sigma> a)) ` set (scannedOps P)))"
proof -
  from assms(2) obtain seen0 where g: "getOpIds \<sigma> P = Inr seen0"
    by (auto simp: Mixin_def split: sum.splits)
  then have seen0: "seen0 = (\<lambda>a. ID (\<sigma> a)) ` set (scannedOps P)"
    by (auto simp: getOpIds_closed split: option.splits)
  from assms(2) g obtain seen' where
    l: "mixinLoop 0 Ms (\<sigma>, seen0, P, 0) = Inr (\<sigma>', seen', P', n)"
    by (auto simp: Mixin_def split: sum.splits)
  note res = mixinLoop_result [OF assms(1) l]
  from res have "renameTagged (taggedOps 0 (pathsOf P) (map pathsOf Ms)) (\<sigma>, seen0) = (\<sigma>', seen')"
    by simp
  then have "\<sigma>' = fst (renameTagged (taggedOps 0 (pathsOf P) (map pathsOf Ms)) (\<sigma>, seen0))"
    by simp
  with res show ?thesis
    unfolding seen0 by simp
qed

lemma map_of_filter_key:
  "P k \<Longrightarrow> map_of (filter (\<lambda>e. P (fst e)) es) k = map_of es k"
  by (induction es) auto

lemma map_of_merge_step:
  "map_of (xs @ filter (\<lambda>e. fst e \<notin> fst ` set xs) es) = map_of (xs @ es)"
proof (rule ext)
  fix k
  show "map_of (xs @ filter (\<lambda>e. fst e \<notin> fst ` set xs) es) k = map_of (xs @ es) k"
  proof (cases "k \<in> fst ` set xs")
    case True
    then obtain v where "map_of xs k = Some v"
      by (metis map_of_eq_None_iff not_None_eq)
    then show ?thesis by (simp add: map_add_def)
  next
    case False
    then have "map_of xs k = None" by (simp add: map_of_eq_None_iff)
    then show ?thesis
      using False map_of_filter_key [of "\<lambda>k. k \<notin> fst ` set xs" k es]
      by (simp add: map_add_def)
  qed
qed

lemma map_of_mergedEntries: "map_of (mergedEntries xs ess) = map_of (xs @ concat ess)"
proof (induction ess arbitrary: xs)
  case Nil
  then show ?case by simp
next
  case (Cons es ess)
  have "map_of (mergedEntries xs (es # ess)) =
        map_of ((xs @ filter (\<lambda>e. fst e \<notin> fst ` set xs) es) @ concat ess)"
    by (simp only: mergedEntries.simps Cons.IH)
  also have "\<dots> = map_of (concat ess) ++ map_of (xs @ filter (\<lambda>e. fst e \<notin> fst ` set xs) es)"
    by (simp only: map_of_append)
  also have "\<dots> = map_of (concat ess) ++ map_of (xs @ es)"
    by (simp only: map_of_merge_step)
  also have "\<dots> = map_of ((xs @ es) @ concat ess)"
    by (simp only: map_of_append)
  also have "\<dots> = map_of (xs @ concat (es # ess))"
    by simp
  finally show ?case .
qed

lemma renameOps_single_frame:
  assumes "renameOps i [a] (\<sigma>, seen) = (\<sigma>', seen')"
  shows "Operation.Responses (\<sigma>' b) = Operation.Responses (\<sigma> b) \<and>
         prefix (ID (\<sigma> b)) (ID (\<sigma>' b)) \<and> (b \<noteq> a \<longrightarrow> \<sigma>' b = \<sigma> b)"
  using assms by (auto simp: Let_def split: if_splits)

lemma renameTagged_frame:
  assumes "renameTagged T (\<sigma>, seen) = (\<sigma>', seen')"
  shows "Operation.Responses (\<sigma>' b) = Operation.Responses (\<sigma> b) \<and>
         prefix (ID (\<sigma> b)) (ID (\<sigma>' b)) \<and> (b \<notin> snd ` set T \<longrightarrow> \<sigma>' b = \<sigma> b)"
  using assms
proof (induction T arbitrary: \<sigma> seen)
  case Nil
  then show ?case by simp
next
  case (Cons t T)
  obtain i a where t: "t = (i, a)" by (cases t)
  obtain \<sigma>1 seen1 where s1: "renameOps i [a] (\<sigma>, seen) = (\<sigma>1, seen1)"
    by (cases "renameOps i [a] (\<sigma>, seen)")
  from Cons.prems have r: "renameTagged T (\<sigma>1, seen1) = (\<sigma>', seen')"
    by (simp only: t renameTagged.simps s1)
  note f1 = renameOps_single_frame [OF s1, of b]
  note f2 = Cons.IH [OF r]
  have "prefix (ID (\<sigma> b)) (ID (\<sigma>' b))"
    using f1 f2 prefix_order.order_trans by blast
  then show ?case using f1 f2 by (auto simp: t)
qed

lemma taggedOps_subset:
  "snd ` set (taggedOps i xs ess) \<subseteq> (\<Union>es \<in> set ess. \<Union>e \<in> set es. set (pathItemOps (snd e)))"
proof (induction ess arbitrary: i xs)
  case Nil
  then show ?case by simp
next
  case (Cons es ess)
  have "snd ` set (taggedOps (Suc i) (xs @ filter (\<lambda>e. fst e \<notin> fst ` set xs) es) ess)
        \<subseteq> (\<Union>es \<in> set ess. \<Union>e \<in> set es. set (pathItemOps (snd e)))"
    by (rule Cons.IH)
  then show ?case by (auto simp: image_Un image_image)
qed

lemma Mixin_frame:
  assumes "\<forall>m \<in> set Ms. wfKeys m" and "Mixin \<sigma> P Ms = Inr (\<sigma>', P', n)"
  shows "Operation.Responses (\<sigma>' b) = Operation.Responses (\<sigma> b) \<and>
         prefix (ID (\<sigma> b)) (ID (\<sigma>' b)) \<and>
         (b \<notin> (\<Union>m \<in> set Ms. set (scannedOps m)) \<longrightarrow> \<sigma>' b = \<sigma> b)"
proof -
  let ?T = "taggedOps 0 (pathsOf P) (map pathsOf Ms)"
  let ?st = "renameTagged ?T (\<sigma>, (\<lambda>a. ID (\<sigma> a)) ` set (scannedOps P))"
  have \<sigma>': "\<sigma>' = fst ?st"
    using Mixin_result [OF assms] by blast
  have r: "renameTagged ?T (\<sigma>, (\<lambda>a. ID (\<sigma> a)) ` set (scannedOps P)) = (\<sigma>', snd ?st)"
    by (simp add: \<sigma>')
  have sub: "snd ` set ?T \<subseteq> (\<Union>m \<in> set Ms. set (scannedOps m))"
    using taggedOps_subset [of 0 "pathsOf P" "map pathsOf Ms"]
    by (auto simp: scannedOps_def)
  from renameTagged_frame [OF r, of b] sub show ?thesis by blast
qed

text \<open>
  Claim C1. On well-formed mixins (every map holds a key once), when \<open>Mixin\<close> returns,
  the count it returns is the number of skipped entries summed over the four
  collections and all mixins, where a mixin entry is skipped exactly when its key is a
  key of the primary or of an earlier mixin (\<open>totalCollisions\<close>); the counter being a
  64-bit word, it is that number as a word, and the number itself when that is below
  \<open>2 ^ 64\<close>. A lookup in a merged collection yields the entry of the first of the
  primary and the mixins, in order, that has the key: the primary's entry, and that of
  an earlier mixin, is never overwritten. No operation other than those under the six
  scanned methods of the mixins' path items is changed.
\<close>

theorem collision_count:
  assumes "\<forall>m \<in> set Ms. wfKeys m" and "Mixin \<sigma> P Ms = Inr (\<sigma>', P', n)"
  shows "n = of_nat (totalCollisions P Ms) \<and>
         (totalCollisions P Ms < 2 ^ 64 \<longrightarrow> unat n = totalCollisions P Ms) \<and>
         map_of (entries (Definitions P')) =
           map_of (entries (Definitions P) @ concat (map (\<lambda>m. entries (Definitions m)) Ms)) \<and>
         map_of (pathsOf P') = map_of (pathsOf P @ concat (map pathsOf Ms)) \<and>
         map_of (entries (Parameters P')) =
           map_of (entries (Parameters P) @ concat (map (\<lambda>m. entries (Parameters m)) Ms)) \<and>
         map_of (entries (Swagger.Responses P')) =
           map_of (entries (Swagger.Responses P) @ concat (map (\<lambda>m. entries (Swagger.Responses m)) Ms)) \<and>
         (\<forall>a. a \<notin> (\<Union>m \<in> set Ms. set (scannedOps m)) \<longrightarrow> \<sigma>' a = \<sigma> a)"
proof -
  note r = Mixin_result [OF assms]
  from r have n: "n = of_nat (totalCollisions P Ms)" by blast
  have u: "totalCollisions P Ms < 2 ^ 64 \<longrightarrow> unat n = totalCollisions P Ms"
    by (simp add: n unat_of_nat take_bit_nat_eq_self)
  have fr: "\<forall>a. a \<notin> (\<Union>m \<in> set Ms. set (scannedOps m)) \<longrightarrow> \<sigma>' a = \<sigma> a"
    using Mixin_frame [OF assms] by blast
  from r have
    "map_of (entries (Definitions P')) =
       map_of (entries (Definitions P) @ concat (map (\<lambda>m. entries (Definitions m)) Ms))"
    "map_of (pathsOf P') = map_of (pathsOf P @ concat (map pathsOf Ms))"
    "map_of (entries (Parameters P')) =
       map_of (entries (Parameters P) @ concat (map (\<lambda>m. entries (Parameters m)) Ms))"
    "map_of (entries (Swagger.Responses P')) =
       map_of (entries (Swagger.Responses P) @ concat (map (\<lambda>m. entries (Swagger.Responses m)) Ms))"
    by (simp_all only: map_of_mergedEntries)
  with n u fr show ?thesis by blast
qed

lemma Inr_projr3: "\<not> isl x \<Longrightarrow> x = Inr (fst (projr x), fst (snd (projr x)), snd (snd (projr x)))"
  by (cases x) simp_all

text \<open>Claim C1 on the example with seven collisions.\<close>

theorem collision_count_witness:
  "wfKeys count_mixin0 \<and> wfKeys count_mixin1 \<and>
   \<not> isl (Mixin count_store count_primary [count_mixin0, count_mixin1]) \<and>
   totalCollisions count_primary [count_mixin0, count_mixin1] = 7 \<and>
   unat (snd (snd (projr (Mixin count_store count_primary [count_mixin0, count_mixin1])))) = 7 \<and>
   map_of (entries (Definitions (fst (snd (projr
     (Mixin count_store count_primary [count_mixin0, count_mixin1])))))) ''A'' = Some ''schema A''"
proof -
  let ?r = "Mixin count_store count_primary [count_mixin0, count_mixin1]"
  have w: "\<forall>m \<in> set [count_mixin0, count_mixin1]. wfKeys m"
    by (simp add: example_defs eval_defs)
  have nf: "\<not> isl ?r"
    by (simp add: example_defs eval_defs)
  have t: "totalCollisions count_primary [count_mixin0, count_mixin1] = 7"
    by (simp add: example_defs eval_defs)
  note c = collision_count [OF w Inr_projr3 [OF nf]]
  from c t have u: "unat (snd (snd (projr ?r))) = 7" by simp
  from c have "map_of (entries (Definitions (fst (snd (projr ?r))))) ''A'' =
      map_of (entries (Definitions count_primary) @
              concat (map (\<lambda>m. entries (Definitions m)) [count_mixin0, count_mixin1])) ''A''"
    by simp
  also have "\<dots> = Some ''schema A''"
    by (simp add: example_defs eval_defs)
  finally have a: "map_of (entries (Definitions (fst (snd (projr ?r))))) ''A'' = Some ''schema A''" .
  from w have "wfKeys count_mixin0 \<and> wfKeys count_mixin1" by simp
  with nf t u a show ?thesis by (intro conjI) simp_all
qed

lemma mergedEntries_disjoint:
  "distinct (map fst (xs @ concat ess)) \<Longrightarrow> mergedEntries xs ess = xs @ concat ess"
proof (induction ess arbitrary: xs)
  case Nil
  then show ?case by simp
next
  case (Cons es ess)
  from Cons.prems have "\<forall>e \<in> set es. fst e \<notin> fst ` set xs" by auto
  then have f: "filter (\<lambda>e. fst e \<notin> fst ` set xs) es = es" by simp
  from Cons.prems have "distinct (map fst ((xs @ es) @ concat ess))" by simp
  from Cons.IH [OF this] show ?case by (simp add: f)
qed

lemma collisions_disjoint:
  "distinct (ks0 @ concat kss) \<Longrightarrow> collisions (set ks0) kss = 0"
proof (induction kss arbitrary: ks0)
  case Nil
  then show ?case by simp
next
  case (Cons ks kss)
  from Cons.prems have "\<forall>k \<in> set ks. k \<notin> set ks0" by auto
  then have f: "filter (\<lambda>k. k \<in> set ks0) ks = []" by simp
  from Cons.prems have "distinct ((ks0 @ ks) @ concat kss)" by simp
  from Cons.IH [OF this] show ?case by (simp add: f)
qed

lemma disjointKeys_collisions:
  assumes "disjointKeys xs ess"
  shows "collisions (set (map fst xs)) (map (map fst) ess) = 0"
proof -
  from assms have "distinct (map fst xs @ concat (map (map fst) ess))"
    by (simp add: disjointKeys_def map_concat)
  then show ?thesis by (rule collisions_disjoint)
qed

lemma disjointKeys_each: "disjointKeys xs ess \<Longrightarrow> es \<in> set ess \<Longrightarrow> distinct (map fst es)"
  by (auto simp: disjointKeys_def map_concat distinct_concat_iff)

lemma disjointDocs_wfKeys:
  assumes "disjointDocs P Ms" and "m \<in> set Ms"
  shows "wfKeys m"
  using assms disjointKeys_each [of "entries (Definitions P)" "map (\<lambda>m. entries (Definitions m)) Ms" "entries (Definitions m)"]
    disjointKeys_each [of "pathsOf P" "map pathsOf Ms" "pathsOf m"]
    disjointKeys_each [of "entries (Parameters P)" "map (\<lambda>m. entries (Parameters m)) Ms" "entries (Parameters m)"]
    disjointKeys_each [of "entries (Swagger.Responses P)" "map (\<lambda>m. entries (Swagger.Responses m)) Ms" "entries (Swagger.Responses m)"]
  by (simp add: disjointDocs_def wfKeys_def keys_def)

lemma disjointDocs_total:
  assumes "disjointDocs P Ms"
  shows "totalCollisions P Ms = 0"
  using assms
    disjointKeys_collisions [of "entries (Definitions P)" "map (\<lambda>m. entries (Definitions m)) Ms"]
    disjointKeys_collisions [of "pathsOf P" "map pathsOf Ms"]
    disjointKeys_collisions [of "entries (Parameters P)" "map (\<lambda>m. entries (Parameters m)) Ms"]
    disjointKeys_collisions [of "entries (Swagger.Responses P)" "map (\<lambda>m. entries (Swagger.Responses m)) Ms"]
  by (simp add: disjointDocs_def totalCollisions_def keys_def comp_def)

lemma length_concat_map:
  "length (concat (map f xs)) = sum_list (map (\<lambda>x. length (f x)) xs)"
  by (induction xs) simp_all

text \<open>
  Claim C2. If the keys of the primary and the mixins are pairwise disjoint within each
  of the four collections, then, when \<open>Mixin\<close> returns, the collision count is 0, each
  collection of the primary has as many entries as the primary and the mixins had
  together, its entries are exactly the old ones and those of the mixins, and every
  operation is as before except that its identifier may have been extended by a suffix.
\<close>

theorem union_without_loss:
  assumes "disjointDocs P Ms" and "Mixin \<sigma> P Ms = Inr (\<sigma>', P', n)"
  shows "n = 0 \<and>
         length (entries (Definitions P')) =
           length (entries (Definitions P)) + sum_list (map (\<lambda>m. length (entries (Definitions m))) Ms) \<and>
         length (pathsOf P') = length (pathsOf P) + sum_list (map (\<lambda>m. length (pathsOf m)) Ms) \<and>
         length (entries (Parameters P')) =
           length (entries (Parameters P)) + sum_list (map (\<lambda>m. length (entries (Parameters m))) Ms) \<and>
         length (entries (Swagger.Responses P')) =
           length (entries (Swagger.Responses P)) +
           sum_list (map (\<lambda>m. length (entries (Swagger.Responses m))) Ms) \<and>
         set (entries (Definitions P')) =
           set (entries (Definitions P)) \<union> (\<Union>m \<in> set Ms. set (entries (Definitions m))) \<and>
         set (pathsOf P') = set (pathsOf P) \<union> (\<Union>m \<in> set Ms. set (pathsOf m)) \<and>
         set (entries (Parameters P')) =
           set (entries (Parameters P)) \<union> (\<Union>m \<in> set Ms. set (entries (Parameters m))) \<and>
         set (entries (Swagger.Responses P')) =
           set (entries (Swagger.Responses P)) \<union> (\<Union>m \<in> set Ms. set (entries (Swagger.Responses m))) \<and>
         (\<forall>a. Operation.Responses (\<sigma>' a) = Operation.Responses (\<sigma> a) \<and>
              prefix (ID (\<sigma> a)) (ID (\<sigma>' a)))"
proof -
  have w: "\<forall>m \<in> set Ms. wfKeys m"
    using disjointDocs_wfKeys [OF assms(1)] by blast
  note r = Mixin_result [OF w assms(2)]
  from assms(1) have
    d1: "distinct (map fst (entries (Definitions P) @ concat (map (\<lambda>m. entries (Definitions m)) Ms)))" and
    d2: "distinct (map fst (pathsOf P @ concat (map pathsOf Ms)))" and
    d3: "distinct (map fst (entries (Parameters P) @ concat (map (\<lambda>m. entries (Parameters m)) Ms)))" and
    d4: "distinct (map fst (entries (Swagger.Responses P) @ concat (map (\<lambda>m. entries (Swagger.Responses m)) Ms)))"
    by (simp_all add: disjointDocs_def disjointKeys_def)
  from r have e1: "entries (Definitions P') =
      entries (Definitions P) @ concat (map (\<lambda>m. entries (Definitions m)) Ms)"
    by (simp only: mergedEntries_disjoint [OF d1])
  from r have e2: "pathsOf P' = pathsOf P @ concat (map pathsOf Ms)"
    by (simp only: mergedEntries_disjoint [OF d2])
  from r have e3: "entries (Parameters P') =
      entries (Parameters P) @ concat (map (\<lambda>m. entries (Parameters m)) Ms)"
    by (simp only: mergedEntries_disjoint [OF d3])
  from r have e4: "entries (Swagger.Responses P') =
      entries (Swagger.Responses P) @ concat (map (\<lambda>m. entries (Swagger.Responses m)) Ms)"
    by (simp only: mergedEntries_disjoint [OF d4])
  from r have n: "n = 0"
    by (simp add: disjointDocs_total [OF assms(1)])
  have fr: "\<forall>a. Operation.Responses (\<sigma>' a) = Operation.Responses (\<sigma> a) \<and>
              prefix (ID (\<sigma> a)) (ID (\<sigma>' a))"
    using Mixin_frame [OF w assms(2)] by blast
  show ?thesis
    unfolding e1 e2 e3 e4 using n fr by (simp add: length_concat_map)
qed

text \<open>Claim C2 on the example with disjoint keys.\<close>

theorem union_without_loss_witness:
  "disjointDocs union_primary [union_mixin0, union_mixin1] \<and>
   \<not> isl (Mixin count_store union_primary [union_mixin0, union_mixin1]) \<and>
   snd (snd (projr (Mixin count_store union_primary [union_mixin0, union_mixin1]))) = 0 \<and>
   length (pathsOf (fst (snd (projr (Mixin count_store union_primary [union_mixin0, union_mixin1]))))) = 3"
proof -
  let ?r = "Mixin count_store union_primary [union_mixin0, union_mixin1]"
  have d: "disjointDocs union_primary [union_mixin0, union_mixin1]"
    by (simp add: example_defs eval_defs)
  have nf: "\<not> isl ?r"
    by (simp add: example_defs eval_defs)
  note u = union_without_loss [OF d Inr_projr3 [OF nf]]
  from u have "length (pathsOf (fst (snd (projr ?r)))) =
      length (pathsOf union_primary) + sum_list (map (\<lambda>m. length (pathsOf m)) [union_mixin0, union_mixin1])"
    by blast
  also have "\<dots> = 3" by (simp add: example_defs eval_defs)
  finally show ?thesis using d nf u by blast
qed

section \<open>The scenario, empty identifiers and the mixins' operations\<close>

text \<open>
  Claim C8 on the example document: the identifier of the GET operation is in the
  registry, that of the OPTIONS operation is not, and the OPTIONS operation is repaired.
\<close>

theorem scan_excludes_Options_witness:
  "\<not> isl (getOpIds repair_store repair_doc) \<and>
   ''getA'' \<in> projr (getOpIds repair_store repair_doc) \<and>
   ''optA'' \<notin> projr (getOpIds repair_store repair_doc) \<and>
   wfRepair repair_store repair_doc \<and>
   \<not> isl (FixEmptyResponseDescriptions repair_store repair_doc) \<and>
   fst (projr (FixEmptyResponseDescriptions repair_store repair_doc)) 1 = repairedOp (repair_store 1)"
proof -
  let ?p = "emptyItem\<lparr>Get := Some 0, Options := Some 1\<rparr>"
  let ?f = "FixEmptyResponseDescriptions repair_store repair_doc"
  have g: "\<not> isl (getOpIds repair_store repair_doc)"
    by (simp add: example_defs eval_defs)
  then have g': "getOpIds repair_store repair_doc = Inr (projr (getOpIds repair_store repair_doc))"
    by simp
  have w: "wfRepair repair_store repair_doc"
    by (simp add: example_defs eval_defs)
  have nf: "\<not> isl ?f"
    by (simp add: example_defs eval_defs)
  then have f': "?f = Inr (fst (projr ?f), snd (projr ?f))"
    by simp
  have ps: "pathsOf repair_doc = [(''/a'', ?p)]"
    by (simp add: example_defs eval_defs)
  note c = scan_excludes_Options [of ?p repair_store repair_doc
      "projr (getOpIds repair_store repair_doc)" "fst (projr ?f)" "snd (projr ?f)"]
  from c g' have m: "\<forall>x. x \<in> projr (getOpIds repair_store repair_doc) \<longleftrightarrow>
      (\<exists>e \<in> set (pathsOf repair_doc). \<exists>a \<in> set (pathItemOps (snd e)). ID (repair_store a) = x)"
    by blast
  have i1: "''getA'' \<in> projr (getOpIds repair_store repair_doc)"
    unfolding m [rule_format] ps by (simp add: example_defs eval_defs)
  have i2: "''optA'' \<notin> projr (getOpIds repair_store repair_doc)"
    unfolding m [rule_format] ps by (simp add: example_defs eval_defs)
  from c w f' have "\<forall>e \<in> set (pathsOf repair_doc). \<forall>a. Options (snd e) = Some a \<longrightarrow>
      fst (projr ?f) a = repairedOp (repair_store a)"
    by blast
  then have i3: "fst (projr ?f) 1 = repairedOp (repair_store 1)"
    unfolding ps by (simp add: emptyItem_def)
  from g i1 i2 w nf i3 show ?thesis by blast
qed

text \<open>
  Claim C4, as stated, fails on the scenario: the operation of the mixin's \<^verbatim>\<open>/b\<close>
  (address 2) is carried over, and its identifier \<^verbatim>\<open>getA\<close>, which the scan of the primary
  has put into the registry, does not remain: it becomes \<^verbatim>\<open>getAMixin0\<close>, which thus
  appears in the merged primary.
\<close>

theorem scenario_b_renamed:
  "\<not> isl (Mixin scenario_store scenario_primary [scenario_mixin]) \<and>
   map_of (pathsOf scenario_mixin) ''/b'' = Some (emptyItem\<lparr>Get := Some 2\<rparr>) \<and>
   ID (scenario_store 2) = ''getA'' \<and>
   map_of (pathsOf (fst (snd (projr (Mixin scenario_store scenario_primary [scenario_mixin])))))
     ''/b'' = Some (emptyItem\<lparr>Get := Some 2\<rparr>) \<and>
   ID (fst (projr (Mixin scenario_store scenario_primary [scenario_mixin])) 2) \<noteq> ''getA'' \<and>
   ID (fst (projr (Mixin scenario_store scenario_primary [scenario_mixin])) 2) = ''getAMixin0''"
  by (simp add: example_defs eval_defs)

text \<open>
  Claim C4, amended. On the scenario \<open>Mixin\<close> returns the collision count 1, the path keys
  of the merged primary are \<^verbatim>\<open>/a\<close> and \<^verbatim>\<open>/b\<close>, the primary keeps its own \<^verbatim>\<open>/a\<close>
  entry, the mixin's \<^verbatim>\<open>/a\<close> entry is dropped and its operation (address 1) keeps the
  identifier \<^verbatim>\<open>getA\<close>, and the operation of the mixin's \<^verbatim>\<open>/b\<close> is renamed to
  \<^verbatim>\<open>getAMixin0\<close>; the order in which the mixin's paths are visited makes no difference.
  If the operation of the mixin's \<^verbatim>\<open>/b\<close> has the identifier \<^verbatim>\<open>getB\<close> instead, so that
  the only colliding identifier of the mixin is on the dropped \<^verbatim>\<open>/a\<close>, no identifier
  changes.
\<close>

theorem scenario_outcome:
  "\<not> isl (Mixin scenario_store scenario_primary [scenario_mixin]) \<and>
   snd (snd (projr (Mixin scenario_store scenario_primary [scenario_mixin]))) = 1 \<and>
   set (map fst (pathsOf (fst (snd (projr (Mixin scenario_store scenario_primary [scenario_mixin]))))))
     = {''/a'', ''/b''} \<and>
   map_of (pathsOf (fst (snd (projr (Mixin scenario_store scenario_primary [scenario_mixin])))))
     ''/a'' = map_of (pathsOf scenario_primary) ''/a'' \<and>
   map_of (pathsOf (fst (snd (projr (Mixin scenario_store scenario_primary [scenario_mixin])))))
     ''/b'' = map_of (pathsOf scenario_mixin) ''/b'' \<and>
   ID (fst (projr (Mixin scenario_store scenario_primary [scenario_mixin])) 0) = ''getA'' \<and>
   ID (fst (projr (Mixin scenario_store scenario_primary [scenario_mixin])) 1) = ''getA'' \<and>
   ID (fst (projr (Mixin scenario_store scenario_primary [scenario_mixin])) 2) = ''getAMixin0'' \<and>
   Mixin scenario_store scenario_primary [scenario_mixin_rev] =
     Mixin scenario_store scenario_primary [scenario_mixin] \<and>
   \<not> isl (Mixin scenario_store_alt scenario_primary [scenario_mixin]) \<and>
   snd (snd (projr (Mixin scenario_store_alt scenario_primary [scenario_mixin]))) = 1 \<and>
   map (\<lambda>a. ID (fst (projr (Mixin scenario_store_alt scenario_primary [scenario_mixin])) a))
     [0, 1, 2] = [''getA'', ''getA'', ''getB'']"
  by (simp add: example_defs eval_defs)

text \<open>
  Claim C6 at its failing input. The primary and the mixin each have one operation
  without an identifier. The scan enters the empty identifier into the registry, so the
  mixin's operation counts as a collision and is renamed to \<^verbatim>\<open>Mixin0\<close>. With three such
  operations in one mixin, the second and the third both become \<^verbatim>\<open>Mixin0\<close>.
\<close>

theorem empty_id_renamed:
  "\<not> isl (Mixin empty_store empty_primary [empty_mixin]) \<and>
   snd (snd (projr (Mixin empty_store empty_primary [empty_mixin]))) = 0 \<and>
   map_of (pathsOf empty_mixin) ''/m'' = Some (emptyItem\<lparr>Get := Some 1\<rparr>) \<and>
   ID (empty_store 1) = [] \<and>
   ID (fst (projr (Mixin empty_store empty_primary [empty_mixin])) 1) = ''Mixin0'' \<and>
   \<not> isl (Mixin (\<lambda>_. opNamed []) empty3_primary [empty3_mixin]) \<and>
   map (\<lambda>a. ID (fst (projr (Mixin (\<lambda>_. opNamed []) empty3_primary [empty3_mixin])) a))
     [1, 2, 3] = [[], ''Mixin0'', ''Mixin0'']"
  by (simp add: example_defs eval_defs)

text \<open>
  Claim C7, as stated, fails on the scenario: the operation at address 2, reachable
  from the mixin's path item \<^verbatim>\<open>/b\<close>, is not equal to its value before the call.
\<close>

theorem mixin_operation_mutated:
  "\<not> isl (Mixin scenario_store scenario_primary [scenario_mixin]) \<and>
   2 \<in> set (scannedOps scenario_mixin) \<and>
   fst (projr (Mixin scenario_store scenario_primary [scenario_mixin])) 2 \<noteq> scenario_store 2"
  by (simp add: example_defs eval_defs)

text \<open>
  Claim C7, amended. The maps of a mixin are never written (the model has no such
  assignment). When \<open>Mixin\<close> returns on well-formed mixins, the responses of every
  operation are as before, an identifier changes only by a suffix being appended, and an
  operation that is not under one of the six scanned methods of a carried-over path item
  of a mixin is as before.
\<close>

theorem mixins_changed_only_by_renaming:
  assumes "\<forall>m \<in> set Ms. wfKeys m" and "Mixin \<sigma> P Ms = Inr (\<sigma>', P', n)"
  shows "(\<forall>a. Operation.Responses (\<sigma>' a) = Operation.Responses (\<sigma> a) \<and>
              prefix (ID (\<sigma> a)) (ID (\<sigma>' a)) \<and>
              (a \<notin> set (carriedOps P Ms) \<longrightarrow> \<sigma>' a = \<sigma> a)) \<and>
         set (carriedOps P Ms) \<subseteq> (\<Union>m \<in> set Ms. set (scannedOps m))"
proof -
  let ?T = "taggedOps 0 (pathsOf P) (map pathsOf Ms)"
  let ?st = "renameTagged ?T (\<sigma>, (\<lambda>a. ID (\<sigma> a)) ` set (scannedOps P))"
  have \<sigma>': "\<sigma>' = fst ?st"
    using Mixin_result [OF assms] by blast
  have r: "renameTagged ?T (\<sigma>, (\<lambda>a. ID (\<sigma> a)) ` set (scannedOps P)) = (\<sigma>', snd ?st)"
    by (simp add: \<sigma>')
  have sub: "set (carriedOps P Ms) \<subseteq> (\<Union>m \<in> set Ms. set (scannedOps m))"
    using taggedOps_subset [of 0 "pathsOf P" "map pathsOf Ms"]
    by (auto simp: scannedOps_def carriedOps_def)
  have "\<forall>a. Operation.Responses (\<sigma>' a) = Operation.Responses (\<sigma> a) \<and>
              prefix (ID (\<sigma> a)) (ID (\<sigma>' a)) \<and>
              (a \<notin> set (carriedOps P Ms) \<longrightarrow> \<sigma>' a = \<sigma> a)"
    using renameTagged_frame [OF r] by (simp add: carriedOps_def)
  with sub show ?thesis by blast
qed

text \<open>
  Claim C7, amended, on the scenario: only the operation at address 2 is carried over.
\<close>

theorem mixins_changed_only_by_renaming_witness:
  "wfKeys scenario_mixin \<and>
   \<not> isl (Mixin scenario_store scenario_primary [scenario_mixin]) \<and>
   carriedOps scenario_primary [scenario_mixin] = [2] \<and>
   fst (projr (Mixin scenario_store scenario_primary [scenario_mixin])) 1 = scenario_store 1 \<and>
   Operation.Responses (fst (projr (Mixin scenario_store scenario_primary [scenario_mixin])) 2) =
     Operation.Responses (scenario_store 2)"
proof -
  let ?r = "Mixin scenario_store scenario_primary [scenario_mixin]"
  have w: "\<forall>m \<in> set [scenario_mixin]. wfKeys m"
    by (simp add: example_defs eval_defs)
  have nf: "\<not> isl ?r"
    by (simp add: example_defs eval_defs)
  have c: "carriedOps scenario_primary [scenario_mixin] = [2]"
    by (simp add: example_defs eval_defs)
  note t = mixins_changed_only_by_renaming [OF w Inr_projr3 [OF nf]]
  from t have "1 \<notin> set (carriedOps scenario_primary [scenario_mixin]) \<longrightarrow>
      fst (projr ?r) 1 = scenario_store 1"
    by blast
  then have u: "fst (projr ?r) 1 = scenario_store 1" by (simp add: c)
  from t have v: "Operation.Responses (fst (projr ?r) 2) = Operation.Responses (scenario_store 2)"
    by blast
  from w have "wfKeys scenario_mixin" by simp
  with nf c u v show ?thesis by (intro conjI)
qed

section \<open>Panics\<close>

lemma fixEntries_Some_ok: "\<exists>ys. fixEntries es (Some xs) = Inr (Some ys)"
proof (induction es arbitrary: xs)
  case Nil
  then show ?case by simp
next
  case (Cons e es)
  obtain k v where e: "e = (k, v)" by (cases e)
  show ?case using Cons.IH by (simp add: e assign_def)
qed

lemma fixEntries_entries_ok: "\<not> isl (fixEntries (entries m) m)"
proof (cases m)
  case None
  then show ?thesis by (simp add: entries_def)
next
  case (Some xs)
  obtain ys where "fixEntries xs (Some xs) = Inr (Some ys)"
    using fixEntries_Some_ok by blast
  then show ?thesis by (simp add: Some entries_def)
qed

lemma FixEmptyDescs_Some_ok: "\<exists>r'. FixEmptyDescs (Some r) = Inr r'"
proof -
  have "\<not> isl (fixEntries (entries (StatusCodeResponses r)) (StatusCodeResponses r))"
    by (rule fixEntries_entries_ok)
  then obtain m where "fixEntries (entries (StatusCodeResponses r)) (StatusCodeResponses r) = Inr m"
    by (cases "fixEntries (entries (StatusCodeResponses r)) (StatusCodeResponses r)") simp_all
  then show ?thesis by (simp add: FixEmptyDescs_def)
qed

lemma fixMethod_isl: "isl (fixMethod (Some a) \<sigma>) \<longleftrightarrow> Operation.Responses (\<sigma> a) = None"
proof (cases "Operation.Responses (\<sigma> a)")
  case None
  then show ?thesis by (simp add: fixMethod_def FixEmptyDescs_def)
next
  case (Some r)
  obtain r' where "FixEmptyDescs (Some r) = Inr r'"
    using FixEmptyDescs_Some_ok by blast
  then show ?thesis by (simp add: fixMethod_def Some)
qed

lemma fixMethod_keeps_nil:
  assumes "fixMethod (Some a) \<sigma> = Inr \<sigma>'"
  shows "(Operation.Responses (\<sigma>' b) = None) = (Operation.Responses (\<sigma> b) = None)"
proof -
  from assms have "\<not> isl (fixMethod (Some a) \<sigma>)" by simp
  then obtain r where r: "Operation.Responses (\<sigma> a) = Some r"
    by (auto simp: fixMethod_isl)
  obtain r' where r': "FixEmptyDescs (Some r) = Inr r'"
    using FixEmptyDescs_Some_ok by blast
  from assms have "\<sigma>' = \<sigma>(a := (\<sigma> a)\<lparr>Operation.Responses := Some r'\<rparr>)"
    by (simp add: fixMethod_def r r')
  then show ?thesis by (simp add: r)
qed

lemma fixAll_isl: "isl (fixAll as \<sigma>) \<longleftrightarrow> (\<exists>a \<in> set as. Operation.Responses (\<sigma> a) = None)"
proof (induction as arbitrary: \<sigma>)
  case Nil
  then show ?case by simp
next
  case (Cons a as)
  show ?case
  proof (cases "fixMethod (Some a) \<sigma>")
    case (Inl e)
    then have "isl (fixMethod (Some a) \<sigma>)" by simp
    then have "Operation.Responses (\<sigma> a) = None" by (simp add: fixMethod_isl)
    with Inl show ?thesis by simp
  next
    case (Inr \<sigma>1)
    then have "\<not> isl (fixMethod (Some a) \<sigma>)" by simp
    then have a: "Operation.Responses (\<sigma> a) \<noteq> None" by (simp add: fixMethod_isl)
    have "isl (fixAll (a # as) \<sigma>) \<longleftrightarrow> isl (fixAll as \<sigma>1)" by (simp add: Inr)
    also have "\<dots> \<longleftrightarrow> (\<exists>b \<in> set as. Operation.Responses (\<sigma>1 b) = None)" by (rule Cons.IH)
    also have "\<dots> \<longleftrightarrow> (\<exists>b \<in> set as. Operation.Responses (\<sigma> b) = None)"
      by (simp only: fixMethod_keeps_nil [OF Inr])
    also have "\<dots> \<longleftrightarrow> (\<exists>b \<in> set (a # as). Operation.Responses (\<sigma> b) = None)"
      using a by auto
    finally show ?thesis .
  qed
qed

lemma FixEmptyResponseDescriptions_isl:
  "isl (FixEmptyResponseDescriptions \<sigma> s) \<longleftrightarrow>
     Swagger.Paths s = None \<or> (\<exists>a \<in> set (repairedOps s). Operation.Responses (\<sigma> a) = None)"
proof (cases "Swagger.Paths s")
  case None
  then show ?thesis by (simp add: FixEmptyResponseDescriptions_def)
next
  case (Some ps)
  have ops: "repairedOps s = concat (map (\<lambda>e. ptrs (repairedMethods (snd e))) (entries (Paths.Paths ps)))"
    by (simp add: repairedOps_def pathsOf_def pathEntries_def Some)
  have p: "fixPaths (entries (Paths.Paths ps)) \<sigma> = fixAll (repairedOps s) \<sigma>"
    by (simp add: fixPaths_fixAll ops)
  show ?thesis
  proof (cases "fixAll (repairedOps s) \<sigma>")
    case (Inl e)
    then have "isl (fixAll (repairedOps s) \<sigma>)" by simp
    then have "\<exists>a \<in> set (repairedOps s). Operation.Responses (\<sigma> a) = None"
      by (simp add: fixAll_isl)
    then show ?thesis
      using Inl by (simp add: FixEmptyResponseDescriptions_def Some p)
  next
    case (Inr \<sigma>1)
    then have "\<not> isl (fixAll (repairedOps s) \<sigma>)" by simp
    then have no: "\<not> (\<exists>a \<in> set (repairedOps s). Operation.Responses (\<sigma> a) = None)"
      by (simp add: fixAll_isl)
    have "\<not> isl (fixEntries (entries (Swagger.Responses s)) (Swagger.Responses s))"
      by (rule fixEntries_entries_ok)
    then obtain m where m: "fixEntries (entries (Swagger.Responses s)) (Swagger.Responses s) = Inr m"
      by (cases "fixEntries (entries (Swagger.Responses s)) (Swagger.Responses s)") simp_all
    have "\<not> isl (FixEmptyResponseDescriptions \<sigma> s)"
      by (simp add: FixEmptyResponseDescriptions_def Some p Inr m)
    with no show ?thesis by (simp add: Some)
  qed
qed

lemma mergeEntries_Some_ok: "\<exists>ys c'. mergeEntries es (Some xs, c) = Inr (Some ys, c')"
proof (induction es arbitrary: xs c)
  case Nil
  then show ?case by simp
next
  case (Cons e es)
  obtain k v where e: "e = (k, v)" by (cases e)
  show ?case using Cons.IH by (simp add: e assign_def)
qed

lemma mergeEntries_isl: "isl (mergeEntries es (pm, c)) \<longleftrightarrow> pm = None \<and> es \<noteq> []"
proof (cases pm)
  case None
  show ?thesis
  proof (cases es)
    case Nil
    then show ?thesis by (simp add: None)
  next
    case (Cons e es')
    obtain k v where e: "e = (k, v)" by (cases e)
    show ?thesis by (simp add: None Cons e has_key_def keys_def entries_def assign_def)
  qed
next
  case (Some xs)
  obtain ys c' where "mergeEntries es (Some xs, c) = Inr (Some ys, c')"
    using mergeEntries_Some_ok by blast
  then show ?thesis by (simp add: Some)
qed

lemma mergeEntries_keeps_nil:
  assumes "mergeEntries es (pm, c) = Inr (pm', c')"
  shows "(pm' = None) = (pm = None)"
proof (cases pm)
  case None
  from assms have "\<not> isl (mergeEntries es (pm, c))" by simp
  then have "es = []" by (simp add: mergeEntries_isl None)
  with assms None show ?thesis by simp
next
  case (Some xs)
  obtain ys c'' where "mergeEntries es (Some xs, c) = Inr (Some ys, c'')"
    using mergeEntries_Some_ok by blast
  with assms Some show ?thesis by auto
qed

lemma mergePaths_Some_ok:
  "\<exists>\<sigma>' seen' ys c'. mergePaths i es (\<sigma>, seen, Some \<lparr>Paths.Paths = Some xs\<rparr>, c) =
     Inr (\<sigma>', seen', Some \<lparr>Paths.Paths = Some ys\<rparr>, c')"
proof (induction es arbitrary: \<sigma> seen xs c)
  case Nil
  then show ?case by simp
next
  case (Cons e es)
  obtain k v where e: "e = (k, v)" by (cases e)
  show ?case using Cons.IH by (simp add: e assign_def split: prod.splits)
qed

lemma mergePaths_isl:
  "isl (mergePaths i es (\<sigma>, seen, pp, c)) \<longleftrightarrow> Option.bind pp Paths.Paths = None \<and> es \<noteq> []"
proof (cases "Option.bind pp Paths.Paths")
  case None
  show ?thesis
  proof (cases es)
    case Nil
    then show ?thesis by (simp add: None)
  next
    case (Cons e es')
    obtain k v where e: "e = (k, v)" by (cases e)
    from None show ?thesis
      by (cases pp)
         (simp_all add: Cons e has_key_def keys_def entries_def assign_def split: prod.splits)
  qed
next
  case (Some xs)
  then obtain ps where pp: "pp = Some ps" and "Paths.Paths ps = Some xs"
    by (cases pp) auto
  then have ps: "ps = \<lparr>Paths.Paths = Some xs\<rparr>" by (cases ps) simp
  obtain \<sigma>' seen' ys c' where
    "mergePaths i es (\<sigma>, seen, Some \<lparr>Paths.Paths = Some xs\<rparr>, c) =
       Inr (\<sigma>', seen', Some \<lparr>Paths.Paths = Some ys\<rparr>, c')"
    using mergePaths_Some_ok by blast
  then show ?thesis by (simp add: pp ps)
qed

lemma mergePaths_keeps_nil:
  assumes "mergePaths i es (\<sigma>, seen, pp, c) = Inr (\<sigma>', seen', pp', c')"
  shows "(Option.bind pp' Paths.Paths = None) = (Option.bind pp Paths.Paths = None) \<and>
         (pp' = None) = (pp = None)"
proof (cases "Option.bind pp Paths.Paths")
  case None
  from assms have "\<not> isl (mergePaths i es (\<sigma>, seen, pp, c))" by simp
  then have "es = []" by (simp add: mergePaths_isl None)
  with assms None show ?thesis by simp
next
  case (Some xs)
  then obtain ps where pp: "pp = Some ps" and "Paths.Paths ps = Some xs"
    by (cases pp) auto
  then have ps: "ps = \<lparr>Paths.Paths = Some xs\<rparr>" by (cases ps) simp
  obtain \<sigma>'' seen'' ys c'' where
    "mergePaths i es (\<sigma>, seen, Some \<lparr>Paths.Paths = Some xs\<rparr>, c) =
       Inr (\<sigma>'', seen'', Some \<lparr>Paths.Paths = Some ys\<rparr>, c'')"
    using mergePaths_Some_ok by blast
  with assms Some show ?thesis by (auto simp: pp ps)
qed

lemma pathsMap_bind: "pathsMap s = Option.bind (Swagger.Paths s) Paths.Paths"
  by (cases "Swagger.Paths s") (simp_all add: pathsMap_def)

lemma pathsOf_entries: "Swagger.Paths m = Some mp \<Longrightarrow> pathsOf m = entries (Paths.Paths mp)"
  by (simp add: pathsOf_def pathEntries_def)

lemma mixinStep_isl: "isl (mixinStep i m (\<sigma>, seen, P, c)) \<longleftrightarrow> nilFault P m"
proof (cases "mergeEntries (entries (Definitions m)) (Definitions P, c)")
  case (Inl e)
  then have "isl (mergeEntries (entries (Definitions m)) (Definitions P, c))" by simp
  then have "nilFault P m" by (simp add: mergeEntries_isl nilFault_def)
  with Inl show ?thesis by (simp add: mixinStep_def)
next
  case (Inr r1)
  obtain defs c1 where r1: "r1 = (defs, c1)" by (cases r1)
  from Inr have "\<not> isl (mergeEntries (entries (Definitions m)) (Definitions P, c))" by simp
  then have n1: "\<not> (Definitions P = None \<and> entries (Definitions m) \<noteq> [])"
    by (simp add: mergeEntries_isl)
  show ?thesis
  proof (cases "Swagger.Paths m")
    case None
    then show ?thesis by (simp add: mixinStep_def Inr r1 nilFault_def)
  next
    case (Some mp)
    note pm = pathsOf_entries [OF Some]
    show ?thesis
    proof (cases "mergePaths i (pathsOf m) (\<sigma>, seen, Swagger.Paths P, c1)")
      case (Inl e)
      then have "isl (mergePaths i (pathsOf m) (\<sigma>, seen, Swagger.Paths P, c1))" by simp
      then have "nilFault P m" by (simp add: mergePaths_isl nilFault_def pathsMap_bind)
      with Inl show ?thesis by (simp add: mixinStep_def Inr r1 Some pm [symmetric])
    next
      case r2i: (Inr r2)
      obtain \<sigma>2 seen2 pp c2 where r2: "r2 = (\<sigma>2, seen2, pp, c2)" by (cases r2)
      from r2i have "\<not> isl (mergePaths i (pathsOf m) (\<sigma>, seen, Swagger.Paths P, c1))" by simp
      then have n2: "\<not> (pathsMap P = None \<and> pathsOf m \<noteq> [])"
        by (simp add: mergePaths_isl pathsMap_bind)
      show ?thesis
      proof (cases "mergeEntries (entries (Parameters m)) (Parameters P, c2)")
        case (Inl e)
        then have "isl (mergeEntries (entries (Parameters m)) (Parameters P, c2))" by simp
        then have "nilFault P m" by (simp add: mergeEntries_isl nilFault_def)
        with Inl show ?thesis by (simp add: mixinStep_def Inr r1 Some pm [symmetric] r2i r2)
      next
        case r3i: (Inr r3)
        obtain params c3 where r3: "r3 = (params, c3)" by (cases r3)
        from r3i have "\<not> isl (mergeEntries (entries (Parameters m)) (Parameters P, c2))" by simp
        then have n3: "\<not> (Parameters P = None \<and> entries (Parameters m) \<noteq> [])"
          by (simp add: mergeEntries_isl)
        show ?thesis
        proof (cases "mergeEntries (entries (Swagger.Responses m)) (Swagger.Responses P, c3)")
          case (Inl e)
          then have "isl (mergeEntries (entries (Swagger.Responses m)) (Swagger.Responses P, c3))"
            by simp
          then have "nilFault P m" by (simp add: mergeEntries_isl nilFault_def)
          with Inl show ?thesis
            by (simp add: mixinStep_def Inr r1 Some pm [symmetric] r2i r2 r3i r3)
        next
          case r4i: (Inr r4)
          obtain resps c4 where r4: "r4 = (resps, c4)" by (cases r4)
          from r4i have "\<not> isl (mergeEntries (entries (Swagger.Responses m)) (Swagger.Responses P, c3))"
            by simp
          then have n4: "\<not> (Swagger.Responses P = None \<and> entries (Swagger.Responses m) \<noteq> [])"
            by (simp add: mergeEntries_isl)
          have "\<not> nilFault P m"
            using n1 n2 n3 n4 Some by (simp add: nilFault_def)
          then show ?thesis
            by (simp add: mixinStep_def Inr r1 Some pm [symmetric] r2i r2 r3i r3 r4i r4)
        qed
      qed
    qed
  qed
qed

lemma mixinStep_keeps_nil:
  assumes "mixinStep i m (\<sigma>, seen, P, c) = Inr (\<sigma>', seen', P', c')"
  shows "(Definitions P' = None) = (Definitions P = None) \<and>
         (Swagger.Paths P' = None) = (Swagger.Paths P = None) \<and>
         (pathsMap P' = None) = (pathsMap P = None) \<and>
         (Parameters P' = None) = (Parameters P = None) \<and>
         (Swagger.Responses P' = None) = (Swagger.Responses P = None)"
proof -
  from assms obtain defs c1 where
    s1: "mergeEntries (entries (Definitions m)) (Definitions P, c) = Inr (defs, c1)"
    by (auto simp: mixinStep_def split: sum.splits)
  from assms s1 obtain mp where mp: "Swagger.Paths m = Some mp"
    by (auto simp: mixinStep_def split: option.splits)
  note pm = pathsOf_entries [OF mp]
  from assms s1 mp obtain \<sigma>2 seen2 pp c2 where
    s2: "mergePaths i (pathsOf m) (\<sigma>, seen, Swagger.Paths P, c1) = Inr (\<sigma>2, seen2, pp, c2)"
    by (auto simp: mixinStep_def pm split: sum.splits)
  from assms s1 mp s2 obtain params c3 where
    s3: "mergeEntries (entries (Parameters m)) (Parameters P, c2) = Inr (params, c3)"
    by (auto simp: mixinStep_def pm split: sum.splits)
  from assms s1 mp s2 s3 obtain resps c4 where
    s4: "mergeEntries (entries (Swagger.Responses m)) (Swagger.Responses P, c3) = Inr (resps, c4)"
    by (auto simp: mixinStep_def pm split: sum.splits)
  from assms s1 mp s2 s3 s4 have
    P': "P' = P\<lparr>Swagger.Paths := pp, Definitions := defs, Parameters := params, Swagger.Responses := resps\<rparr>"
    by (auto simp: mixinStep_def pm)
  show ?thesis
    using mergeEntries_keeps_nil [OF s1] mergePaths_keeps_nil [OF s2]
      mergeEntries_keeps_nil [OF s3] mergeEntries_keeps_nil [OF s4]
    by (simp add: P' pathsMap_bind)
qed

lemma nilFault_cong:
  assumes "(Definitions P' = None) = (Definitions P = None)"
    and "(pathsMap P' = None) = (pathsMap P = None)"
    and "(Parameters P' = None) = (Parameters P = None)"
    and "(Swagger.Responses P' = None) = (Swagger.Responses P = None)"
  shows "nilFault P' m = nilFault P m"
  using assms by (simp add: nilFault_def)

lemma mixinLoop_isl:
  "isl (mixinLoop i Ms (\<sigma>, seen, P, c)) \<longleftrightarrow> (\<exists>m \<in> set Ms. nilFault P m)"
proof (induction Ms arbitrary: i \<sigma> seen P c)
  case Nil
  then show ?case by simp
next
  case (Cons m Ms)
  show ?case
  proof (cases "mixinStep i m (\<sigma>, seen, P, c)")
    case (Inl e)
    then have "isl (mixinStep i m (\<sigma>, seen, P, c))" by simp
    then have "nilFault P m" by (simp add: mixinStep_isl)
    with Inl show ?thesis by simp
  next
    case (Inr st)
    obtain \<sigma>1 seen1 P1 c1 where st: "st = (\<sigma>1, seen1, P1, c1)" by (cases st)
    from Inr have "\<not> isl (mixinStep i m (\<sigma>, seen, P, c))" by simp
    then have nm: "\<not> nilFault P m" by (simp add: mixinStep_isl)
    note k = mixinStep_keeps_nil [OF Inr [unfolded st]]
    have eq: "\<And>m'. nilFault P1 m' = nilFault P m'"
      using k by (intro nilFault_cong) simp_all
    have "isl (mixinLoop i (m # Ms) (\<sigma>, seen, P, c)) \<longleftrightarrow> isl (mixinLoop (Suc i) Ms (\<sigma>1, seen1, P1, c1))"
      by (simp add: Inr st)
    also have "\<dots> \<longleftrightarrow> (\<exists>m' \<in> set Ms. nilFault P1 m')" by (rule Cons.IH)
    also have "\<dots> \<longleftrightarrow> (\<exists>m' \<in> set (m # Ms). nilFault P m')"
      using nm by (simp add: eq)
    finally show ?thesis .
  qed
qed

lemma Mixin_isl:
  "isl (Mixin \<sigma> P Ms) \<longleftrightarrow> Swagger.Paths P = None \<or> (\<exists>m \<in> set Ms. nilFault P m)"
proof (cases "Swagger.Paths P")
  case None
  then show ?thesis by (simp add: Mixin_def getOpIds_def)
next
  case (Some ps)
  obtain seen0 where g: "getOpIds \<sigma> P = Inr seen0"
    by (simp add: getOpIds_def Some)
  show ?thesis
  proof (cases "mixinLoop 0 Ms (\<sigma>, seen0, P, 0)")
    case (Inl e)
    then have "isl (mixinLoop 0 Ms (\<sigma>, seen0, P, 0))" by simp
    then have "\<exists>m \<in> set Ms. nilFault P m" by (simp add: mixinLoop_isl)
    with Inl show ?thesis by (simp add: Mixin_def g)
  next
    case (Inr st)
    obtain \<sigma>1 seen1 P1 c1 where st: "st = (\<sigma>1, seen1, P1, c1)" by (cases st)
    from Inr have "\<not> isl (mixinLoop 0 Ms (\<sigma>, seen0, P, 0))" by simp
    then have "\<not> (\<exists>m \<in> set Ms. nilFault P m)" by (simp add: mixinLoop_isl)
    then show ?thesis by (simp add: Mixin_def g Inr st Some)
  qed
qed

text \<open>
  Claim C10. With the documents themselves given (the model has no \<^verbatim>\<open>nil\<close> document),
  \<open>Mixin\<close> panics exactly when a container that it dereferences or writes is \<^verbatim>\<open>nil\<close>:
  the \<^verbatim>\<open>Paths\<close> pointer of the primary or of a mixin, or the \<^verbatim>\<open>Definitions\<close>,
  \<^verbatim>\<open>Paths.Paths\<close>, \<^verbatim>\<open>Parameters\<close> or \<^verbatim>\<open>Responses\<close> map of the primary while the same
  collection of some mixin is not empty. \<open>FixEmptyDescs\<close> panics on a \<^verbatim>\<open>nil\<close> pointer and
  on no other argument, and \<open>FixEmptyResponseDescriptions\<close> panics exactly when the
  \<^verbatim>\<open>Paths\<close> pointer is \<^verbatim>\<open>nil\<close> or an operation under one of the seven methods of a
  path item has a \<^verbatim>\<open>nil\<close> \<^verbatim>\<open>Responses\<close> pointer. So with non-\<^verbatim>\<open>nil\<close> containers neither
  function panics.
\<close>

theorem faults_exactly_on_nil:
  "(isl (Mixin \<sigma> P Ms) \<longleftrightarrow>
      Swagger.Paths P = None \<or>
      (\<exists>m \<in> set Ms.
         (Definitions P = None \<and> entries (Definitions m) \<noteq> []) \<or>
         Swagger.Paths m = None \<or>
         (pathsMap P = None \<and> pathsOf m \<noteq> []) \<or>
         (Parameters P = None \<and> entries (Parameters m) \<noteq> []) \<or>
         (Swagger.Responses P = None \<and> entries (Swagger.Responses m) \<noteq> []))) \<and>
   FixEmptyDescs None = Inl NilDereference \<and>
   (\<forall>r. \<not> isl (FixEmptyDescs (Some r))) \<and>
   (isl (FixEmptyResponseDescriptions \<sigma> s) \<longleftrightarrow>
      Swagger.Paths s = None \<or>
      (\<exists>a \<in> set (repairedOps s). Operation.Responses (\<sigma> a) = None))"
proof -
  have a: "\<forall>r. \<not> isl (FixEmptyDescs (Some r))"
  proof
    fix r
    obtain r' where "FixEmptyDescs (Some r) = Inr r'"
      using FixEmptyDescs_Some_ok by blast
    then show "\<not> isl (FixEmptyDescs (Some r))" by simp
  qed
  have b: "FixEmptyDescs None = Inl NilDereference"
    by (simp add: FixEmptyDescs_def)
  show ?thesis
    using a b Mixin_isl [of \<sigma> P Ms] FixEmptyResponseDescriptions_isl [of \<sigma> s]
    unfolding nilFault_def by blast
qed

text \<open>
  Claim C10 on examples: a primary with a \<^verbatim>\<open>nil\<close> definitions map and an operation with
  a \<^verbatim>\<open>nil\<close> responses pointer make the functions panic; the other examples do not.
\<close>

theorem faults_exactly_on_nil_witness:
  "(Definitions nil_primary = None \<and> entries (Definitions count_mixin0) \<noteq> []) \<and>
   isl (Mixin count_store nil_primary [count_mixin0]) \<and>
   \<not> isl (Mixin count_store count_primary [count_mixin0, count_mixin1]) \<and>
   isl (FixEmptyResponseDescriptions nil_store scenario_primary) \<and>
   \<not> isl (FixEmptyResponseDescriptions repair_store repair_doc)"
proof -
  note t1 = faults_exactly_on_nil [of count_store nil_primary "[count_mixin0]" repair_doc]
  note t0 = faults_exactly_on_nil [of nil_store scenario_primary "[]" scenario_primary]
  note t2 = faults_exactly_on_nil [of count_store count_primary "[count_mixin0, count_mixin1]" repair_doc]
  note t3 = faults_exactly_on_nil [of repair_store repair_doc "[]" repair_doc]
  have c1: "Definitions nil_primary = None \<and> entries (Definitions count_mixin0) \<noteq> []"
    by (simp add: example_defs eval_defs)
  from t1 c1 have i1: "isl (Mixin count_store nil_primary [count_mixin0])"
    by simp
  have c2: "0 \<in> set (repairedOps scenario_primary) \<and> Operation.Responses (nil_store 0) = None"
    by (simp add: example_defs eval_defs)
  from t0 c2 have i2: "isl (FixEmptyResponseDescriptions nil_store scenario_primary)"
    by blast
  have c3: "\<not> (Swagger.Paths count_primary = None \<or>
      (\<exists>m \<in> set [count_mixin0, count_mixin1].
         (Definitions count_primary = None \<and> entries (Definitions m) \<noteq> []) \<or>
         Swagger.Paths m = None \<or>
         (pathsMap count_primary = None \<and> pathsOf m \<noteq> []) \<or>
         (Parameters count_primary = None \<and> entries (Parameters m) \<noteq> []) \<or>
         (Swagger.Responses count_primary = None \<and> entries (Swagger.Responses m) \<noteq> [])))"
    by (simp add: example_defs eval_defs)
  from t2 c3 have i3: "\<not> isl (Mixin count_store count_primary [count_mixin0, count_mixin1])"
    by blast
  have c4: "\<not> (Swagger.Paths repair_doc = None \<or>
      (\<exists>a \<in> set (repairedOps repair_doc). Operation.Responses (repair_store a) = None))"
    by (simp add: example_defs eval_defs)
  from t3 c4 have i4: "\<not> isl (FixEmptyResponseDescriptions repair_store repair_doc)"
    by blast
  from c1 i1 i2 i3 i4 show ?thesis by blast
qed

section \<open>Uniqueness of operation identifiers\<close>

lemma digit_in: "n < 10 \<Longrightarrow> digit n \<in> set ''0123456789''"
  unfolding digit_def by (rule nth_mem) simp

lemma digit_inj: "n < 10 \<Longrightarrow> m < 10 \<Longrightarrow> digit n = digit m \<Longrightarrow> n = m"
proof -
  assume "n < 10" "m < 10" "digit n = digit m"
  moreover have "distinct ''0123456789''" by simp
  ultimately show "n = m"
    unfolding digit_def by (simp add: nth_eq_iff_index_eq)
qed

lemma dec_digits: "set (dec n) \<subseteq> set ''0123456789''"
proof (induction n rule: dec.induct)
  case (1 n)
  show ?case
  proof (cases "n < 10")
    case True
    then show ?thesis using digit_in [of n] by (subst dec.simps) simp
  next
    case False
    have "n mod 10 < 10" by simp
    then have "digit (n mod 10) \<in> set ''0123456789''" by (rule digit_in)
    with False "1.IH" show ?thesis by (subst dec.simps) simp
  qed
qed

lemma dec_nonempty: "dec n \<noteq> []"
  by (subst dec.simps) simp

lemma dec_inj: "dec n = dec m \<Longrightarrow> n = m"
proof (induction n arbitrary: m rule: dec.induct)
  case (1 n)
  show ?case
  proof (cases "n < 10")
    case True
    note n = True
    show ?thesis
    proof (cases "m < 10")
      case True
      from "1.prems" n True have "digit n = digit m"
        by (simp add: dec.simps [of n] dec.simps [of m])
      with n True show ?thesis by (rule digit_inj)
    next
      case False
      from "1.prems" n False have "dec (m div 10) = []"
        by (simp add: dec.simps [of n] dec.simps [of m])
      then show ?thesis by (simp add: dec_nonempty)
    qed
  next
    case False
    note n = False
    show ?thesis
    proof (cases "m < 10")
      case True
      from "1.prems" n True have "dec (n div 10) = []"
        by (simp add: dec.simps [of n] dec.simps [of m])
      then show ?thesis by (simp add: dec_nonempty)
    next
      case False
      from "1.prems" n False have e: "dec (n div 10) = dec (m div 10)"
        and d: "digit (n mod 10) = digit (m mod 10)"
        by (simp_all add: dec.simps [of n] dec.simps [of m])
      from "1.IH" [OF n e] have q: "n div 10 = m div 10" .
      have "n mod 10 = m mod 10"
        using d by (intro digit_inj) simp_all
      with q show ?thesis by (metis div_mult_mod_eq)
    qed
  qed
qed

lemma n_not_digit: "CHR ''n'' \<notin> set ''0123456789''"
  by simp

lemma suffix_split:
  assumes "x @ ''Mixin'' @ dec i = y @ ''Mixin'' @ dec j"
  shows "x = y \<and> i = j"
proof -
  from assms have "(x @ ''Mixin'') @ dec i = (y @ ''Mixin'') @ dec j" by simp
  then obtain us where
    "(x @ ''Mixin'' = (y @ ''Mixin'') @ us \<and> us @ dec i = dec j) \<or>
     ((x @ ''Mixin'') @ us = y @ ''Mixin'' \<and> dec i = us @ dec j)"
    unfolding append_eq_append_conv2 by blast
  then have "us = [] \<and> x @ ''Mixin'' = y @ ''Mixin'' \<and> dec i = dec j"
  proof
    assume a: "x @ ''Mixin'' = (y @ ''Mixin'') @ us \<and> us @ dec i = dec j"
    have "us = []"
    proof (rule ccontr)
      assume ne: "us \<noteq> []"
      from a have "last (x @ ''Mixin'') = last ((y @ ''Mixin'') @ us)" by simp
      with ne have "last us = CHR ''n''" by simp
      with ne have "CHR ''n'' \<in> set us" by (metis last_in_set)
      with a have "CHR ''n'' \<in> set (dec j)" by (metis Un_iff set_append)
      with dec_digits [of j] n_not_digit show False by blast
    qed
    with a show ?thesis by simp
  next
    assume a: "(x @ ''Mixin'') @ us = y @ ''Mixin'' \<and> dec i = us @ dec j"
    have "us = []"
    proof (rule ccontr)
      assume ne: "us \<noteq> []"
      from a have "last ((x @ ''Mixin'') @ us) = last (y @ ''Mixin'')" by simp
      with ne have "last us = CHR ''n''" by simp
      with ne have "CHR ''n'' \<in> set us" by (metis last_in_set)
      with a have "CHR ''n'' \<in> set (dec i)" by (metis Un_iff set_append)
      with dec_digits [of i] n_not_digit show False by blast
    qed
    with a show ?thesis by simp
  qed
  then show ?thesis using dec_inj by auto
qed

lemma renameOps_single:
  "renameOps i [a] (\<sigma>, seen) =
     (if ID (\<sigma> a) \<in> seen
      then (\<sigma>(a := (\<sigma> a)\<lparr>ID := ID (\<sigma> a) @ ''Mixin'' @ dec i\<rparr>),
            insert (ID (\<sigma> a) @ ''Mixin'' @ dec i) seen)
      else (\<sigma>, insert (ID (\<sigma> a)) seen))"
  by (simp add: Let_def)

lemma renameTagged_unique:
  assumes "renameTagged T (\<sigma>, seen) = (\<sigma>', seen')"
    and "seen = (\<lambda>a. ID (\<sigma> a)) ` set D"
    and "distinct (map (\<lambda>a. ID (\<sigma> a)) D)"
    and "distinct (D @ map snd T)"
    and "distinct (map (\<lambda>t. (fst t, ID (\<sigma> (snd t)))) T)"
    and "\<forall>t \<in> set T. ID (\<sigma> (snd t)) @ ''Mixin'' @ dec (fst t) \<notin> seen"
    and "\<forall>t \<in> set T. \<forall>u \<in> set T. ID (\<sigma> (snd u)) \<noteq> ID (\<sigma> (snd t)) @ ''Mixin'' @ dec (fst t)"
  shows "distinct (map (\<lambda>a. ID (\<sigma>' a)) (D @ map snd T)) \<and>
         (\<forall>a \<in> set D. \<sigma>' a = \<sigma> a) \<and>
         (\<forall>t \<in> set T. ID (\<sigma>' (snd t)) = ID (\<sigma> (snd t)) \<or>
                       ID (\<sigma>' (snd t)) = ID (\<sigma> (snd t)) @ ''Mixin'' @ dec (fst t))"
  using assms
proof (induction T arbitrary: \<sigma> seen D)
  case Nil
  then show ?case by simp
next
  case (Cons t T)
  obtain i a where t: "t = (i, a)" by (cases t)
  define x where "x = ID (\<sigma> a)"
  define y where "y = (if x \<in> seen then x @ ''Mixin'' @ dec i else x)"
  define \<sigma>1 where "\<sigma>1 = (if x \<in> seen then \<sigma>(a := (\<sigma> a)\<lparr>ID := y\<rparr>) else \<sigma>)"
  have step: "renameOps i [a] (\<sigma>, seen) = (\<sigma>1, insert y seen)"
    by (simp add: renameOps_single x_def y_def \<sigma>1_def)
  from Cons.prems(1) have run: "renameTagged T (\<sigma>1, insert y seen) = (\<sigma>', seen')"
    by (simp only: t renameTagged.simps step)
  from Cons.prems(4) have aD: "a \<notin> set D" and aT: "a \<notin> snd ` set T"
    and dD: "distinct D" and dT: "distinct (map snd T)" and DT: "set D \<inter> snd ` set T = {}"
    by (auto simp: t)
  have same: "\<And>b. b \<noteq> a \<Longrightarrow> \<sigma>1 b = \<sigma> b"
    by (simp add: \<sigma>1_def)
  have ya: "ID (\<sigma>1 a) = y"
    by (simp add: \<sigma>1_def y_def x_def)
  have sameD: "\<forall>b \<in> set D. \<sigma>1 b = \<sigma> b"
  proof
    fix b
    assume "b \<in> set D"
    with aD have "b \<noteq> a" by auto
    then show "\<sigma>1 b = \<sigma> b" by (rule same)
  qed
  have sameT: "\<forall>u \<in> set T. \<sigma>1 (snd u) = \<sigma> (snd u)"
  proof
    fix u
    assume "u \<in> set T"
    with aT have "snd u \<noteq> a" by auto
    then show "\<sigma>1 (snd u) = \<sigma> (snd u)" by (rule same)
  qed
  have y_fresh: "y \<notin> seen"
  proof (cases "x \<in> seen")
    case True
    then have "y = ID (\<sigma> a) @ ''Mixin'' @ dec i" by (simp add: y_def x_def)
    with Cons.prems(6) show ?thesis by (simp add: t)
  next
    case False
    then show ?thesis by (simp add: y_def)
  qed
  have p2: "insert y seen = (\<lambda>b. ID (\<sigma>1 b)) ` set (D @ [a])"
    using sameD ya by (auto simp: Cons.prems(2))
  have idsD: "map (\<lambda>b. ID (\<sigma>1 b)) D = map (\<lambda>b. ID (\<sigma> b)) D"
    using sameD by simp
  have p3: "distinct (map (\<lambda>b. ID (\<sigma>1 b)) (D @ [a]))"
    using Cons.prems(3) y_fresh by (simp add: idsD ya Cons.prems(2))
  have p4: "distinct ((D @ [a]) @ map snd T)"
    using Cons.prems(4) by (simp add: t)
  have idsT: "map (\<lambda>u. (fst u, ID (\<sigma>1 (snd u)))) T = map (\<lambda>u. (fst u, ID (\<sigma> (snd u)))) T"
    using sameT by simp
  from Cons.prems(5) have p5: "distinct (map (\<lambda>u. (fst u, ID (\<sigma>1 (snd u)))) T)"
    and notT: "(i, x) \<notin> (\<lambda>u. (fst u, ID (\<sigma> (snd u)))) ` set T"
    by (simp_all add: idsT t x_def)
  have p6: "\<forall>u \<in> set T. ID (\<sigma>1 (snd u)) @ ''Mixin'' @ dec (fst u) \<notin> insert y seen"
  proof
    fix u
    assume u: "u \<in> set T"
    then have su: "\<sigma>1 (snd u) = \<sigma> (snd u)" using sameT by blast
    from Cons.prems(6) u have n1: "ID (\<sigma> (snd u)) @ ''Mixin'' @ dec (fst u) \<notin> seen"
      by simp
    have n2: "ID (\<sigma> (snd u)) @ ''Mixin'' @ dec (fst u) \<noteq> y"
    proof (cases "x \<in> seen")
      case True
      then have y: "y = x @ ''Mixin'' @ dec i" by (simp add: y_def)
      show ?thesis
      proof
        assume "ID (\<sigma> (snd u)) @ ''Mixin'' @ dec (fst u) = y"
        then have "ID (\<sigma> (snd u)) = x \<and> fst u = i"
          unfolding y by (rule suffix_split)
        then have "(i, x) = (fst u, ID (\<sigma> (snd u)))" by simp
        with u notT show False by blast
      qed
    next
      case False
      then have y: "y = ID (\<sigma> a)" by (simp add: y_def x_def)
      from Cons.prems(7) u have "ID (\<sigma> (snd t)) \<noteq> ID (\<sigma> (snd u)) @ ''Mixin'' @ dec (fst u)"
        by simp
      then show ?thesis by (simp add: y t)
    qed
    from n1 n2 show "ID (\<sigma>1 (snd u)) @ ''Mixin'' @ dec (fst u) \<notin> insert y seen"
      by (simp add: su)
  qed
  have p7: "\<forall>u \<in> set T. \<forall>v \<in> set T.
      ID (\<sigma>1 (snd v)) \<noteq> ID (\<sigma>1 (snd u)) @ ''Mixin'' @ dec (fst u)"
    using Cons.prems(7) sameT by simp
  note ih = Cons.IH [OF run p2 p3 p4 p5 p6 p7]
  have le: "(D @ [a]) @ map snd T = D @ map snd (t # T)"
    by (simp add: t)
  from ih have r1: "distinct (map (\<lambda>a. ID (\<sigma>' a)) (D @ map snd (t # T)))"
    unfolding le by (rule conjunct1)
  from ih have keep: "\<forall>b \<in> set (D @ [a]). \<sigma>' b = \<sigma>1 b" by blast
  with sameD have r2: "\<forall>b \<in> set D. \<sigma>' b = \<sigma> b" by simp
  from keep ya have "ID (\<sigma>' a) = y" by simp
  then have ra: "ID (\<sigma>' a) = ID (\<sigma> a) \<or> ID (\<sigma>' a) = ID (\<sigma> a) @ ''Mixin'' @ dec i"
    by (simp add: y_def x_def)
  from ih sameT have rT: "\<forall>u \<in> set T. ID (\<sigma>' (snd u)) = ID (\<sigma> (snd u)) \<or>
      ID (\<sigma>' (snd u)) = ID (\<sigma> (snd u)) @ ''Mixin'' @ dec (fst u)"
    by simp
  from r1 r2 ra rT show ?case by (simp add: t)
qed

lemma subseq_distinct: "subseq xs ys \<Longrightarrow> distinct ys \<Longrightarrow> distinct xs"
  by (metis in_set_subseqs subseqs_distinctD)

lemma subseq_concat_filter: "subseq (concat (map f (filter P es))) (concat (map f es))"
proof (induction es)
  case Nil
  then show ?case by simp
next
  case (Cons e es)
  show ?case
  proof (cases "P e")
    case True
    with Cons show ?thesis by (simp add: subseq_append')
  next
    case False
    with Cons show ?thesis by (simp add: subseq_drop_many)
  qed
qed

lemma taggedOps_subseq:
  "subseq (map snd (taggedOps i xs ess))
          (concat (map (\<lambda>es. concat (map (\<lambda>e. pathItemOps (snd e)) es)) ess))"
proof (induction ess arbitrary: i xs)
  case Nil
  then show ?case by simp
next
  case (Cons es ess)
  have a: "subseq (concat (map (\<lambda>e. pathItemOps (snd e)) (filter (\<lambda>e. fst e \<notin> fst ` set xs) es)))
                  (concat (map (\<lambda>e. pathItemOps (snd e)) es))"
    by (rule subseq_concat_filter)
  have b: "subseq (map snd (taggedOps (Suc i) (xs @ filter (\<lambda>e. fst e \<notin> fst ` set xs) es) ess))
                  (concat (map (\<lambda>es. concat (map (\<lambda>e. pathItemOps (snd e)) es)) ess))"
    by (rule Cons.IH)
  from a b show ?case
    by (simp add: comp_def list_emb_append_mono)
qed

lemma in_concat_filter:
  assumes "a \<in> set (concat (map f (filter P es)))"
  shows "a \<in> set (concat (map f es))"
  using assms by (induction es) (auto split: if_splits)

lemma taggedOps_index:
  "t \<in> set (taggedOps i xs ess) \<Longrightarrow>
   \<exists>k < length ess. fst t = i + k \<and>
     snd t \<in> set (concat (map (\<lambda>e. pathItemOps (snd e)) (ess ! k)))"
proof (induction ess arbitrary: i xs)
  case Nil
  then show ?case by simp
next
  case (Cons es ess)
  let ?F = "filter (\<lambda>e. fst e \<notin> fst ` set xs) es"
  let ?A = "concat (map (\<lambda>e. pathItemOps (snd e)) ?F)"
  from Cons.prems have
    "t \<in> Pair i ` set ?A \<or> t \<in> set (taggedOps (Suc i) (xs @ ?F) ess)"
    by (simp only: taggedOps.simps set_append set_map Un_iff)
  then show ?case
  proof
    assume "t \<in> Pair i ` set ?A"
    then obtain a where aA: "a \<in> set ?A" and ta: "t = (i, a)"
      by (rule imageE) simp
    from aA have "a \<in> set (concat (map (\<lambda>e. pathItemOps (snd e)) es))"
      by (rule in_concat_filter)
    then have "0 < length (es # ess) \<and> fst t = i + 0 \<and>
        snd t \<in> set (concat (map (\<lambda>e. pathItemOps (snd e)) ((es # ess) ! 0)))"
      by (simp add: ta)
    then show ?thesis by (rule exI [of _ 0])
  next
    assume "t \<in> set (taggedOps (Suc i) (xs @ ?F) ess)"
    from Cons.IH [OF this] obtain k where k: "k < length ess" "fst t = Suc i + k"
      "snd t \<in> set (concat (map (\<lambda>e. pathItemOps (snd e)) (ess ! k)))"
      by (elim exE conjE)
    then have "Suc k < length (es # ess) \<and> fst t = i + Suc k \<and>
      snd t \<in> set (concat (map (\<lambda>e. pathItemOps (snd e)) ((es # ess) ! Suc k)))"
      by simp
    then show ?thesis by (rule exI [of _ "Suc k"])
  qed
qed

lemma taggedOps_distinct_ids:
  assumes "\<forall>es \<in> set ess. distinct (map (\<lambda>a. ID (\<sigma> a)) (concat (map (\<lambda>e. pathItemOps (snd e)) es)))"
  shows "distinct (map (\<lambda>t. (fst t, ID (\<sigma> (snd t)))) (taggedOps i xs ess))"
  using assms
proof (induction ess arbitrary: i xs)
  case Nil
  then show ?case by simp
next
  case (Cons es ess)
  let ?F = "filter (\<lambda>e. fst e \<notin> fst ` set xs) es"
  let ?A = "concat (map (\<lambda>e. pathItemOps (snd e)) ?F)"
  let ?R = "taggedOps (Suc i) (xs @ ?F) ess"
  have "subseq (map (\<lambda>a. ID (\<sigma> a)) ?A) (map (\<lambda>a. ID (\<sigma> a)) (concat (map (\<lambda>e. pathItemOps (snd e)) es)))"
    by (intro subseq_map subseq_concat_filter)
  moreover from Cons.prems
  have "distinct (map (\<lambda>a. ID (\<sigma> a)) (concat (map (\<lambda>e. pathItemOps (snd e)) es)))"
    by simp
  ultimately have dA: "distinct (map (\<lambda>a. ID (\<sigma> a)) ?A)"
    by (rule subseq_distinct)
  have d1: "distinct (map (\<lambda>t. (fst t, ID (\<sigma> (snd t)))) (map (Pair i) ?A))"
    using dA by (simp add: comp_def distinct_map inj_on_def)
  have d2: "distinct (map (\<lambda>t. (fst t, ID (\<sigma> (snd t)))) ?R)"
    using Cons.prems by (intro Cons.IH) simp
  have d3: "\<forall>t \<in> set ?R. fst t \<noteq> i"
  proof
    fix t
    assume "t \<in> set ?R"
    from taggedOps_index [OF this] obtain k where "fst t = Suc i + k"
      by (elim exE conjE)
    then show "fst t \<noteq> i" by simp
  qed
  have "set (map (\<lambda>t. (fst t, ID (\<sigma> (snd t)))) (map (Pair i) ?A)) \<inter>
        set (map (\<lambda>t. (fst t, ID (\<sigma> (snd t)))) ?R) = {}"
    using d3 by auto
  with d1 d2 show ?case
    by (simp only: taggedOps.simps map_append distinct_append)
qed

lemma scanned_after_merge:
  "concat (map (\<lambda>e. pathItemOps (snd e)) (mergedEntries xs ess)) =
   concat (map (\<lambda>e. pathItemOps (snd e)) xs) @ map snd (taggedOps i xs ess)"
proof (induction ess arbitrary: i xs)
  case Nil
  then show ?case by simp
next
  case (Cons es ess)
  show ?case
    using Cons.IH [of "xs @ filter (\<lambda>e. fst e \<notin> fst ` set xs) es" "Suc i"]
    by (simp add: comp_def)
qed

lemma scannedOps_concat:
  "concat (map (\<lambda>es. concat (map (\<lambda>e. pathItemOps (snd e)) es)) (map pathsOf Ms)) =
   concat (map scannedOps Ms)"
  by (simp add: scannedOps_def [abs_def] comp_def)

lemma noRenameClash_D:
  assumes nc: "noRenameClash \<sigma> P Ms"
    and t: "t \<in> set (taggedOps 0 (pathsOf P) (map pathsOf Ms))"
    and b: "b \<in> set (allScannedOps P Ms)"
  shows "ID (\<sigma> b) \<noteq> ID (\<sigma> (snd t)) @ ''Mixin'' @ dec (fst t)"
proof -
  from taggedOps_index [OF t] obtain k where k: "k < length Ms" and f: "fst t = k"
    and a: "snd t \<in> set (concat (map (\<lambda>e. pathItemOps (snd e)) (map pathsOf Ms ! k)))"
    by (elim exE conjE) simp
  from k a have a': "snd t \<in> set (scannedOps (Ms ! k))"
    by (simp add: scannedOps_def)
  from k have "(k, Ms ! k) \<in> set (enumerate 0 Ms)"
    by (simp add: in_set_enumerate_eq)
  with nc have "list_all
          (\<lambda>a. list_all (\<lambda>b. ID (\<sigma> b) \<noteq> ID (\<sigma> a) @ ''Mixin'' @ dec k)
                  (allScannedOps P Ms))
          (scannedOps (Ms ! k))"
    unfolding noRenameClash_def list_all_iff by fastforce
  with a' b show ?thesis
    unfolding list_all_iff f by blast
qed

text \<open>
  Claim C3, amended. Assume that the operations under the six scanned methods are not
  shared, that each has a non-empty identifier, that these identifiers are unique within
  the primary and within each mixin, and that no identifier that a renaming would
  produce is already the identifier of a scanned operation. Then, when \<open>Mixin\<close> returns on well-formed mixins, the identifiers of
  the operations under the six scanned methods of the merged primary's path items are
  pairwise distinct; these operations are those of the primary, unchanged, followed by
  the carried-over ones; a carried-over operation of the mixin at index \<open>i\<close> has its old
  identifier or that identifier followed by \<^verbatim>\<open>Mixin\<close> and the decimal \<open>i\<close>; and it has
  the latter whenever its old identifier is the identifier of another scanned operation
  of the merged primary.
\<close>

theorem ids_unique_after_merge:
  assumes wf: "\<forall>m \<in> set Ms. wfKeys m" and r: "Mixin \<sigma> P Ms = Inr (\<sigma>', P', n)"
    and u: "uniqueIds \<sigma> P Ms" and nc: "noRenameClash \<sigma> P Ms"
  shows "distinct (map (\<lambda>a. ID (\<sigma>' a)) (scannedOps P')) \<and>
         scannedOps P' = scannedOps P @ carriedOps P Ms \<and>
         (\<forall>a \<in> set (scannedOps P). \<sigma>' a = \<sigma> a) \<and>
         (\<forall>t \<in> set (taggedOps 0 (pathsOf P) (map pathsOf Ms)).
            ID (\<sigma>' (snd t)) = ID (\<sigma> (snd t)) \<or>
            ID (\<sigma>' (snd t)) = ID (\<sigma> (snd t)) @ ''Mixin'' @ dec (fst t)) \<and>
         (\<forall>t \<in> set (taggedOps 0 (pathsOf P) (map pathsOf Ms)).
            (\<exists>b \<in> set (scannedOps P'). b \<noteq> snd t \<and> ID (\<sigma>' b) = ID (\<sigma> (snd t))) \<longrightarrow>
            ID (\<sigma>' (snd t)) = ID (\<sigma> (snd t)) @ ''Mixin'' @ dec (fst t))"
proof -
  let ?T = "taggedOps 0 (pathsOf P) (map pathsOf Ms)"
  let ?D = "scannedOps P"
  let ?seen = "(\<lambda>a. ID (\<sigma> a)) ` set ?D"
  note res = Mixin_result [OF wf r]
  from res have \<sigma>': "\<sigma>' = fst (renameTagged ?T (\<sigma>, ?seen))" by blast
  have run: "renameTagged ?T (\<sigma>, ?seen) = (\<sigma>', snd (renameTagged ?T (\<sigma>, ?seen)))"
    by (simp add: \<sigma>')
  from res have "pathsOf P' = mergedEntries (pathsOf P) (map pathsOf Ms)" by blast
  then have ops: "scannedOps P' = ?D @ map snd ?T"
    by (simp add: scannedOps_def scanned_after_merge [of _ _ 0])
  from u have dAll: "distinct (?D @ concat (map scannedOps Ms))"
    and dP: "distinct (map (\<lambda>a. ID (\<sigma> a)) ?D)"
    and dM: "\<forall>m \<in> set Ms. distinct (map (\<lambda>a. ID (\<sigma> a)) (scannedOps m))"
    by (simp_all add: uniqueIds_def allScannedOps_def list_all_iff)
  have "subseq (map snd ?T) (concat (map scannedOps Ms))"
    using taggedOps_subseq [of 0 "pathsOf P" "map pathsOf Ms"]
    by (simp only: scannedOps_concat)
  then have "subseq (?D @ map snd ?T) (?D @ concat (map scannedOps Ms))"
    by (simp add: subseq_append')
  then have p4: "distinct (?D @ map snd ?T)"
    using dAll by (rule subseq_distinct)
  have p5: "distinct (map (\<lambda>t. (fst t, ID (\<sigma> (snd t)))) ?T)"
    using dM by (intro taggedOps_distinct_ids) (simp add: scannedOps_def)
  have p6: "\<forall>t \<in> set ?T. ID (\<sigma> (snd t)) @ ''Mixin'' @ dec (fst t) \<notin> ?seen"
  proof
    fix t
    assume t: "t \<in> set ?T"
    show "ID (\<sigma> (snd t)) @ ''Mixin'' @ dec (fst t) \<notin> ?seen"
    proof
      assume "ID (\<sigma> (snd t)) @ ''Mixin'' @ dec (fst t) \<in> ?seen"
      then obtain b where b: "b \<in> set ?D" and e: "ID (\<sigma> b) = ID (\<sigma> (snd t)) @ ''Mixin'' @ dec (fst t)"
        by (elim imageE) simp
      from b have "b \<in> set (allScannedOps P Ms)" by (simp add: allScannedOps_def)
      from noRenameClash_D [OF nc t this] e show False by simp
    qed
  qed
  have sub: "snd ` set ?T \<subseteq> set (concat (map scannedOps Ms))"
    using taggedOps_subset [of 0 "pathsOf P" "map pathsOf Ms"]
    by (auto simp: scannedOps_def)
  have p7: "\<forall>t \<in> set ?T. \<forall>v \<in> set ?T.
      ID (\<sigma> (snd v)) \<noteq> ID (\<sigma> (snd t)) @ ''Mixin'' @ dec (fst t)"
  proof (intro ballI)
    fix t v
    assume t: "t \<in> set ?T" and v: "v \<in> set ?T"
    from v sub have "snd v \<in> set (allScannedOps P Ms)"
      by (auto simp: allScannedOps_def)
    from noRenameClash_D [OF nc t this]
    show "ID (\<sigma> (snd v)) \<noteq> ID (\<sigma> (snd t)) @ ''Mixin'' @ dec (fst t)" .
  qed
  note un = renameTagged_unique [OF run refl dP p4 p5 p6 p7]
  from un have c1: "distinct (map (\<lambda>a. ID (\<sigma>' a)) (scannedOps P'))"
    unfolding ops by (rule conjunct1)
  have c2: "scannedOps P' = scannedOps P @ carriedOps P Ms"
    by (simp add: ops carriedOps_def)
  from un have c3: "\<forall>a \<in> set (scannedOps P). \<sigma>' a = \<sigma> a" by blast
  from un have c4: "\<forall>t \<in> set ?T.
            ID (\<sigma>' (snd t)) = ID (\<sigma> (snd t)) \<or>
            ID (\<sigma>' (snd t)) = ID (\<sigma> (snd t)) @ ''Mixin'' @ dec (fst t)"
    by blast
  have c5: "\<forall>t \<in> set ?T.
            (\<exists>b \<in> set (scannedOps P'). b \<noteq> snd t \<and> ID (\<sigma>' b) = ID (\<sigma> (snd t))) \<longrightarrow>
            ID (\<sigma>' (snd t)) = ID (\<sigma> (snd t)) @ ''Mixin'' @ dec (fst t)"
  proof (intro ballI impI)
    fix t
    assume t: "t \<in> set ?T"
      and "\<exists>b \<in> set (scannedOps P'). b \<noteq> snd t \<and> ID (\<sigma>' b) = ID (\<sigma> (snd t))"
    then obtain b where b: "b \<in> set (scannedOps P')" and ne: "b \<noteq> snd t"
      and e: "ID (\<sigma>' b) = ID (\<sigma> (snd t))"
      by blast
    from t have st: "snd t \<in> set (scannedOps P')" by (simp add: ops)
    from c1 have "inj_on (\<lambda>a. ID (\<sigma>' a)) (set (scannedOps P'))"
      by (simp add: distinct_map)
    with b st ne have "ID (\<sigma>' b) \<noteq> ID (\<sigma>' (snd t))"
      by (auto dest: inj_onD)
    with e have "ID (\<sigma>' (snd t)) \<noteq> ID (\<sigma> (snd t))" by simp
    with c4 t show "ID (\<sigma>' (snd t)) = ID (\<sigma> (snd t)) @ ''Mixin'' @ dec (fst t)"
      by blast
  qed
  from c1 c2 c3 c4 c5 show ?thesis by blast
qed

text \<open>
  Claim C3, as stated, fails: the renaming is a single pass, and the identifier it
  produces can be taken. Here the primary has \<^verbatim>\<open>getA\<close> and \<^verbatim>\<open>getAMixin0\<close>; the mixin's
  \<^verbatim>\<open>getA\<close> is renamed to \<^verbatim>\<open>getAMixin0\<close>, and the merged primary has two operations
  with this identifier.
\<close>

theorem renamed_id_clashes:
  "\<not> isl (Mixin clash_store clash_primary [clash_mixin]) \<and>
   scannedOps (fst (snd (projr (Mixin clash_store clash_primary [clash_mixin])))) = [0, 1, 2] \<and>
   ID (fst (projr (Mixin clash_store clash_primary [clash_mixin])) 1) = ''getAMixin0'' \<and>
   ID (fst (projr (Mixin clash_store clash_primary [clash_mixin])) 2) = ''getAMixin0'' \<and>
   \<not> distinct (map (\<lambda>a. ID (fst (projr (Mixin clash_store clash_primary [clash_mixin])) a))
         (scannedOps (fst (snd (projr (Mixin clash_store clash_primary [clash_mixin]))))))"
  by (simp add: example_defs eval_defs)

text \<open>
  Claim C3, amended, on the example with unique identifiers in each document.
\<close>

theorem ids_unique_after_merge_witness:
  "wfKeys unique_mixin0 \<and> wfKeys unique_mixin1 \<and>
   \<not> isl (Mixin unique_store unique_primary [unique_mixin0, unique_mixin1]) \<and>
   uniqueIds unique_store unique_primary [unique_mixin0, unique_mixin1] \<and>
   noRenameClash unique_store unique_primary [unique_mixin0, unique_mixin1] \<and>
   distinct (map (\<lambda>a. ID (fst (projr (Mixin unique_store unique_primary [unique_mixin0, unique_mixin1])) a))
     (scannedOps (fst (snd (projr (Mixin unique_store unique_primary [unique_mixin0, unique_mixin1])))))) \<and>
   map (\<lambda>a. ID (fst (projr (Mixin unique_store unique_primary [unique_mixin0, unique_mixin1])) a))
     [0, 1, 2, 3, 4] = [''getA'', ''getAMixin0'', ''getB'', ''getAMixin1'', ''getBMixin1'']"
proof -
  let ?r = "Mixin unique_store unique_primary [unique_mixin0, unique_mixin1]"
  have w: "\<forall>m \<in> set [unique_mixin0, unique_mixin1]. wfKeys m"
    by (simp add: example_defs eval_defs)
  have nf: "\<not> isl ?r"
    by (simp add: example_defs eval_defs)
  have u: "uniqueIds unique_store unique_primary [unique_mixin0, unique_mixin1]"
    by (simp add: example_defs eval_defs)
  have nc: "noRenameClash unique_store unique_primary [unique_mixin0, unique_mixin1]"
    by (simp add: example_defs eval_defs)
  have v: "map (\<lambda>a. ID (fst (projr ?r) a)) [0, 1, 2, 3, 4] =
      [''getA'', ''getAMixin0'', ''getB'', ''getAMixin1'', ''getBMixin1'']"
    by (simp add: example_defs eval_defs)
  note t = ids_unique_after_merge [OF w Inr_projr3 [OF nf] u nc]
  from t have "distinct (map (\<lambda>a. ID (fst (projr ?r) a)) (scannedOps (fst (snd (projr ?r)))))"
    by (rule conjunct1)
  moreover from w have "wfKeys unique_mixin0" and "wfKeys unique_mixin1" by simp_all
  ultimately show ?thesis using nf u nc v by (intro conjI)
qed

section \<open>Errors of MixinFiles\<close>

lemma MixinFiles_primary_load_error:
  "loadsSpec primaryFile = Inl err \<Longrightarrow>
   MixinFiles loadsSpec marshalIndent write \<sigma> primaryFile mixinFiles w = Inr (w, 0, Some err)"
  by (simp add: MixinFiles_def)

lemma MixinFiles_mixin_load_error:
  "loadsSpec primaryFile = Inr primary \<Longrightarrow> loadMixins loadsSpec mixinFiles [] = Inl err \<Longrightarrow>
   MixinFiles loadsSpec marshalIndent write \<sigma> primaryFile mixinFiles w = Inr (w, 0, Some err)"
  by (simp add: MixinFiles_def)

lemma MixinFiles_error_result:
  "MixinFiles loadsSpec marshalIndent write \<sigma> primaryFile mixinFiles w = Inr (w', n, Some err) \<Longrightarrow>
   w' = w \<and> n = 0"
  by (auto simp: MixinFiles_def split: sum.splits prod.splits)

lemma MixinFiles_marshal_error:
  assumes "loadsSpec primaryFile = Inr primary"
    and "loadMixins loadsSpec mixinFiles [] = Inr mixins"
    and "Mixin \<sigma> primary mixins = Inr (\<sigma>1, primary1, c)"
    and "FixEmptyResponseDescriptions \<sigma>1 primary1 = Inr (\<sigma>2, primary2)"
    and "marshalIndent \<sigma>2 primary2 = Inl err"
  shows "MixinFiles loadsSpec marshalIndent write \<sigma> primaryFile mixinFiles w = Inr (w, 0, Some err)"
  using assms by (simp add: MixinFiles_def)

lemma MixinFiles_write_error_dropped:
  assumes "loadsSpec primaryFile = Inr primary"
    and "loadMixins loadsSpec mixinFiles [] = Inr mixins"
    and "Mixin \<sigma> primary mixins = Inr (\<sigma>1, primary1, c)"
    and "FixEmptyResponseDescriptions \<sigma>1 primary1 = Inr (\<sigma>2, primary2)"
    and "marshalIndent \<sigma>2 primary2 = Inr bs"
  shows "MixinFiles loadsSpec marshalIndent write \<sigma> primaryFile mixinFiles w =
           Inr (fst (write w bs), c, None)"
  using assms by (simp add: MixinFiles_def)

text \<open>
  Claim C9 at its failing input. A failure to load the primary or a mixin, and a failure
  of the serialization, make \<open>MixinFiles\<close> return the error with the count 0 and leave the
  sink alone (the lemmas above). The result of \<^verbatim>\<open>w.Write\<close> is dropped, though: with a
  writer that fails, \<open>MixinFiles\<close> returns the collision count of the merge and no error.
\<close>

theorem write_error_ignored:
  "write_fails [] ''{}'' = ([], Some ''write: broken pipe'') \<and>
   MixinFiles scenario_files marshal_ok write_fails scenario_store
     ''primary.json'' [''mixin.json''] [] = Inr ([], 1, None)"
  by (simp add: MixinFiles_def example_defs eval_defs)

end
